theory Spec2Isabelle
  imports Main "HOL-Library.Sublist"
begin

section \<open>Strings (package strings, regexp)\<close>

text \<open>
  Go strings are byte sequences; \<open>string\<close> is a list of 8-bit characters.
  \<open>strings.EqualFold\<close> and \<open>strings.ToLower\<close> work on the Unicode code points that
  the bytes encode, with the case tables of package \<open>unicode\<close>; they belong to the
  standard library and are parameters here: a value of the record stands for the two
  functions as the library computes them.
\<close>

record strings =
  EqualFold :: "string \<Rightarrow> string \<Rightarrow> bool"
  ToLower :: "string \<Rightarrow> string"

text \<open>The letters of the character class \<open>[A-Za-z]\<close>.\<close>

definition isLetter :: "char \<Rightarrow> bool" where
  "isLetter c = (let n = (of_char c :: nat) in (65 \<le> n \<and> n \<le> 90) \<or> (97 \<le> n \<and> n \<le> 122))"

definition HasPrefix :: "string \<Rightarrow> string \<Rightarrow> bool" where
  "HasPrefix s p = prefix p s"

definition HasSuffix :: "string \<Rightarrow> string \<Rightarrow> bool" where
  "HasSuffix s x = suffix x s"

definition TrimSuffix :: "string \<Rightarrow> string \<Rightarrow> string" where
  "TrimSuffix s x = (if HasSuffix s x then take (length s - length x) s else s)"

text \<open>\<open>strings.Split(s, sep)\<close> for a separator of one character.\<close>

fun Split :: "string \<Rightarrow> char \<Rightarrow> string list" where
  "Split [] sep = [[]]"
| "Split (c # cs) sep =
     (if c = sep then [] # Split cs sep
      else (case Split cs sep of
              [] \<Rightarrow> [[c]]
            | w # ws \<Rightarrow> (c # w) # ws))"

text \<open>
  The check of the \<open>-why\<close> value, \<open>regexp.MustCompile(`^[A-Za-z]+\:[A-Za-z]+$`)\<close>:
  one or more letters, a colon, one or more letters, and nothing else.
\<close>

definition whyFormat :: "string \<Rightarrow> bool" where
  "whyFormat s =
     (case dropWhile isLetter s of
        [] \<Rightarrow> False
      | c # rest \<Rightarrow>
          takeWhile isLetter s \<noteq> [] \<and> c = CHR '':'' \<and> rest \<noteq> [] \<and> list_all isLetter rest)"

section \<open>The call graph (golang.org/x/tools/go/callgraph, as graph.go uses it)\<close>

text \<open>
  \<open>*callgraph.Node\<close> pointers are values of a type \<open>'n\<close>, \<open>*ssa.Function\<close> pointers
  values of a type \<open>'f\<close>. An edge is the struct \<open>callgraph.Edge\<close> with its fields
  \<open>Caller\<close>, \<open>Site\<close> and \<open>Callee\<close>; of the call site the model keeps the position
  that \<open>createStep\<close> reads, and \<open>None\<close> is the nil site.
  A graph is the map \<open>Nodes\<close> from functions to nodes together with the two fields
  of a node that graph.go reads, \<open>Func\<close> and \<open>Out\<close>, and the method \<open>Description\<close>
  of an edge, which the library computes.
\<close>

record callsite =
  siteLine :: int
  siteColumn :: int
  siteFilename :: string

record 'n edge =
  Caller :: 'n
  Site :: "callsite option"
  Callee :: 'n

record ('f, 'n) callGraph =
  Nodes :: "'f \<rightharpoonup> 'n"
  Func :: "'n \<Rightarrow> 'f"
  Out :: "'n \<Rightarrow> 'n edge list"
  Description :: "'n edge \<Rightarrow> string"

text \<open>
  What the program reads of an \<open>*ssa.Function\<close>: the field \<open>Synthetic\<close>, the methods
  \<open>Origin\<close>, \<open>Parent\<close>, \<open>Object\<close> (here: whether it is non-nil), \<open>String\<close> and \<open>Name\<close>,
  path and name of \<open>fn.Pkg.Pkg\<close>, and the position \<open>Fset.Position(fn.Pos())\<close>.
\<close>

record 'f program =
  fnSynthetic :: "'f \<Rightarrow> string"
  fnOrigin :: "'f \<Rightarrow> 'f option"
  fnParent :: "'f \<Rightarrow> 'f option"
  fnObject :: "'f \<Rightarrow> bool"
  fnString :: "'f \<Rightarrow> string"
  fnName :: "'f \<Rightarrow> string"
  fnPkgPath :: "'f \<Rightarrow> string"
  fnPkgName :: "'f \<Rightarrow> string"
  fnFilename :: "'f \<Rightarrow> string"
  fnLine :: "'f \<Rightarrow> int"
  fnColumn :: "'f \<Rightarrow> int"

text \<open>
  The struct \<open>graph\<close> of graph.go. \<open>reachable\<close> is a Go map; a \<open>range\<close> over it
  visits its keys in an order the language leaves open, so every function that ranges
  over it takes the sequence of keys visited as an argument.
\<close>

record ('f, 'n) graph =
  program :: "'f program"
  roots :: "'f list"
  callgraph :: "('f, 'n) callGraph"
  reachable :: "'f \<rightharpoonup> bool"

record step =
  fullName :: string
  name :: string
  callType :: string
  filename :: string
  line :: int
  column :: int
  callComingFromLine :: int
  callComingFromColumn :: int
  callComingFromFilename :: string

text \<open>
  A run-time panic of the Go program: the nil dereference \<open>current.Func\<close> in \<open>bfs\<close>,
  when \<open>g.callgraph.Nodes[start]\<close> has no entry for the start function, and the
  index \<open>strings.Split(sdkMethod, ".")[1]\<close> in \<open>possibleFunctionNames\<close>.
\<close>

datatype panic = NilPointerDereference | IndexOutOfRange

subsection \<open>bfs and findPath\<close>

text \<open>
  The map \<open>visited\<close> of \<open>bfs\<close>: a key is present with a nil edge (\<open>Some None\<close>, the
  start node) or with the edge that discovered it.
\<close>

type_synonym 'n visited = "'n \<rightharpoonup> 'n edge option"

text \<open>
  The inner loop of \<open>bfs\<close>, \<open>for _, edge := range current.Out\<close>: every callee that is
  not yet a key of \<open>visited\<close> is recorded with its edge and appended to the queue.
\<close>

fun visitOut :: "'n edge list \<Rightarrow> 'n visited \<Rightarrow> 'n list \<Rightarrow> 'n visited \<times> 'n list" where
  "visitOut [] visited queue = (visited, queue)"
| "visitOut (e # es) visited queue =
     (if visited (Callee e) = None
      then visitOut es (visited(Callee e \<mapsto> Some e)) (queue @ [Callee e])
      else visitOut es visited queue)"

text \<open>
  The loop \<open>for { edge := visited[current]; ... }\<close> that walks back to the start.
  \<open>visited[current]\<close> is nil both for a key stored with nil and for a missing key.
  The loop has no bound of its own, so not returning is the value \<open>None\<close>.
\<close>

partial_function (option) traverseBack ::
  "'n visited \<Rightarrow> 'n \<Rightarrow> 'n edge list \<Rightarrow> 'n edge list option" where
  "traverseBack visited current path =
     (case visited current of
        Some (Some e) \<Rightarrow> traverseBack visited (Caller e) (path @ [e])
      | _ \<Rightarrow> Some (rev path))"

text \<open>
  The outer loop \<open>for len(queue) > 0\<close>. The result is the returned slice:
  \<open>None\<close> is the nil slice of \<open>return nil\<close>, \<open>Some path\<close> the non-nil slice built
  from \<open>[]*callgraph.Edge{}\<close>.
\<close>

partial_function (option) bfsLoop ::
  "('f, 'n) callGraph \<Rightarrow> 'f \<Rightarrow> 'n visited \<Rightarrow> 'n list \<Rightarrow> 'n edge list option option" where
  "bfsLoop cg target visited queue =
     (case queue of
        [] \<Rightarrow> Some None
      | current # queue' \<Rightarrow>
          if Func cg current = target
          then map_option Some (traverseBack visited current [])
          else (case visitOut (Out cg current) visited queue' of
                  (visited', queue'') \<Rightarrow> bfsLoop cg target visited' queue''))"

text \<open>
  \<open>bfs\<close>: a missing entry of \<open>Nodes\<close> makes \<open>root\<close> nil; the queue then holds nil and
  the first iteration panics at \<open>current.Func\<close>. The outer \<open>option\<close> is \<open>None\<close> when
  the call does not return.
\<close>

definition bfs ::
  "('f, 'n) callGraph \<Rightarrow> 'f \<Rightarrow> 'f \<Rightarrow> (panic + 'n edge list option) option" where
  "bfs cg start target =
     (case Nodes cg start of
        None \<Rightarrow> Some (Inl NilPointerDereference)
      | Some root \<Rightarrow> map_option Inr (bfsLoop cg target [root \<mapsto> None] [root]))"

text \<open>\<open>findPath\<close>: the roots in their order; the first non-nil path is returned.\<close>

fun findPathFrom ::
  "('f, 'n) callGraph \<Rightarrow> 'f list \<Rightarrow> 'f \<Rightarrow> (panic + 'n edge list option) option" where
  "findPathFrom cg [] target = Some (Inr None)"
| "findPathFrom cg (root # rs) target =
     (case bfs cg root target of
        None \<Rightarrow> None
      | Some (Inl p) \<Rightarrow> Some (Inl p)
      | Some (Inr (Some path)) \<Rightarrow> Some (Inr (Some path))
      | Some (Inr None) \<Rightarrow> findPathFrom cg rs target)"

definition findPath ::
  "('f, 'n) graph \<Rightarrow> 'f \<Rightarrow> (panic + 'n edge list option) option" where
  "findPath g target = findPathFrom (callgraph g) (roots g) target"

subsection \<open>findFunc, whyReachable, printPath\<close>

text \<open>
  \<open>findFunc\<close> ranges over the keys of \<open>g.reachable\<close>; \<open>keys\<close> is the order in which
  this \<open>range\<close> visits them.
\<close>

definition findFunc :: "('f, 'n) graph \<Rightarrow> 'f list \<Rightarrow> string \<Rightarrow> 'f option" where
  "findFunc g keys fname =
     find (\<lambda>fn. fnSynthetic (program g) fn = [] \<and> fnObject (program g) fn \<and>
                 fnString (program g) fn = fname) keys"

text \<open>
  \<open>whyReachable\<close> calls the library's \<open>DeleteSyntheticNodes\<close>, which rewrites the call
  graph in place: the rewriting is a parameter, and the graph after the call is
  returned with the path.
\<close>

definition whyReachable ::
  "(('f, 'n) callGraph \<Rightarrow> ('f, 'n) callGraph) \<Rightarrow> ('f, 'n) graph \<Rightarrow> 'f list \<Rightarrow> string
     \<Rightarrow> (panic + 'n edge list option \<times> ('f, 'n) graph) option" where
  "whyReachable DeleteSyntheticNodes g keys fname =
     (case findFunc g keys fname of
        None \<Rightarrow> Some (Inr (None, g))
      | Some fn \<Rightarrow>
          (let g' = g\<lparr>callgraph := DeleteSyntheticNodes (callgraph g)\<rparr> in
           case findPath g' fn of
             None \<Rightarrow> None
           | Some (Inl p) \<Rightarrow> Some (Inl p)
           | Some (Inr path) \<Rightarrow> Some (Inr (path, g'))))"

text \<open>\<open>cleanName\<close>: \<open>regexp.MustCompile(`[\(\)\*]+`).ReplaceAllString(fn.String(), "")\<close>.\<close>

definition cleanName :: "'f program \<Rightarrow> 'f \<Rightarrow> string" where
  "cleanName p fn =
     filter (\<lambda>c. c \<noteq> CHR ''('' \<and> c \<noteq> CHR '')'' \<and> c \<noteq> CHR ''*'') (fnString p fn)"

definition createStep :: "('f, 'n) graph \<Rightarrow> 'n edge \<Rightarrow> step" where
  "createStep g e =
     (let callee = Func (callgraph g) (Callee e);
          (outLine, outColumn, outFilename) =
             (case Site e of
                None \<Rightarrow> (0, 0, [])
              | Some s \<Rightarrow> (siteLine s, siteColumn s, siteFilename s));
          file = fnFilename (program g) callee
      in \<lparr> fullName = cleanName (program g) callee,
           name = fnName (program g) callee,
           callType = Description (callgraph g) e,
           filename = (if file = [] then ''?'' else file),
           line = fnLine (program g) callee,
           column = fnColumn (program g) callee,
           callComingFromLine = outLine,
           callComingFromColumn = outColumn,
           callComingFromFilename = outFilename \<rparr>)"

text \<open>
  What the program writes to standard output: one value for each call of
  \<open>fmt.Printf\<close> or \<open>fmt.Println\<close>, holding the arguments of the call.
\<close>

datatype printed = PrintRoot string | PrintStep step | PrintLine string

fun printPathFrom :: "('f, 'n) graph \<Rightarrow> nat \<Rightarrow> 'n edge list \<Rightarrow> printed list" where
  "printPathFrom g i [] = []"
| "printPathFrom g i (e # path) =
     (if i = 0 then [PrintRoot (cleanName (program g) (Func (callgraph g) (Caller e)))] else [])
     @ PrintStep (createStep g e) # printPathFrom g (Suc i) path"

definition printPath :: "('f, 'n) graph \<Rightarrow> 'n edge list \<Rightarrow> printed list" where
  "printPath g path = printPathFrom g 0 path"

section \<open>The permission mapping (iam.go)\<close>

text \<open>
  \<open>iamMap.SDKMethodIAMMappings\<close> is a Go map from SDK method names to slices of
  \<open>iamMapMethod\<close>. Both lookups range over it, so they take its entries in the order
  in which the \<open>range\<close> visits them; the keys of the entries are distinct. The
  first argument is package \<open>strings\<close>.
\<close>

record iamMapMethod =
  Action :: string

type_synonym mappings = "(string \<times> iamMapMethod list) list"

fun sdkMethodToAction :: "strings \<Rightarrow> mappings \<Rightarrow> string \<Rightarrow> string" where
  "sdkMethodToAction lib [] apiMethod = []"
| "sdkMethodToAction lib ((iamMethodName, iamMethods) # rest) apiMethod =
     (if EqualFold lib iamMethodName apiMethod
      then (case iamMethods of
              priv # _ \<Rightarrow> Action priv
            | [] \<Rightarrow> sdkMethodToAction lib rest apiMethod)
      else sdkMethodToAction lib rest apiMethod)"

fun actionToSDKMethods :: "strings \<Rightarrow> mappings \<Rightarrow> string \<Rightarrow> string list" where
  "actionToSDKMethods lib [] action = []"
| "actionToSDKMethods lib ((iamMethodName, iamMethods) # rest) action =
     map (\<lambda>priv. iamMethodName)
       (filter (\<lambda>priv. EqualFold lib (Action priv) action) iamMethods)
     @ actionToSDKMethods lib rest action"

section \<open>Classifying SDK calls (main.go)\<close>

definition isAWSSDKv2Call :: "'f program \<Rightarrow> 'f \<Rightarrow> bool" where
  "isAWSSDKv2Call p fn =
     (let isRelevantFile = HasSuffix (fnFilename p fn) (''/api_op_'' @ fnName p fn @ ''.go'')
      in HasPrefix (fnPkgPath p fn) ''github.com/aws/aws-sdk-go-v2/service/'' \<and> isRelevantFile)"

definition isAWSSDKv1Call :: "'f program \<Rightarrow> 'f \<Rightarrow> bool" where
  "isAWSSDKv1Call p fn =
     (let isRelevantPackage = HasPrefix (fnPkgPath p fn) ''github.com/aws/aws-sdk-go/service/'';
          isRelevantFile = HasSuffix (fnFilename p fn) ''/api.go'';
          isRelevantFunctionName =
            (HasSuffix (fnName p fn) ''Request'' \<and> \<not> HasSuffix (fnName p fn) ''new'' \<and>
             \<not> HasSuffix (fnName p fn) ''Set'')
      in isRelevantPackage \<and> isRelevantFile \<and> isRelevantFunctionName)"

definition sdkVersion :: "'f program \<Rightarrow> 'f \<Rightarrow> string" where
  "sdkVersion p fn =
     (if isAWSSDKv2Call p fn then ''v2'' else if isAWSSDKv1Call p fn then ''v1'' else [])"

text \<open>
  \<open>possibleFunctionNames\<close>: \<open>strings.Split(sdkMethod, ".")[1]\<close> panics when the name
  has no dot.
\<close>

definition possibleFunctionNames :: "strings \<Rightarrow> string \<Rightarrow> panic + string list" where
  "possibleFunctionNames lib sdkMethod =
     (case Split sdkMethod CHR ''.'' of
        s0 # method # _ \<Rightarrow>
          (let service = ToLower lib s0;
               v1 = ''(*github.com/aws/aws-sdk-go/service/'' @ service @ ''.'' @ s0 @ '').''
                      @ method @ ''Request'';
               v2 = ''(*github.com/aws/aws-sdk-go-v2/service/'' @ service @ ''.Client).'' @ method
           in Inr [v1, v2])
      | _ \<Rightarrow> Inl IndexOutOfRange)"

text \<open>
  The name that the loop of \<open>main\<close> appends for a classified function:
  \<open>fmt.Sprintf("%s.%s", fn.Pkg.Pkg.Name(), fnName)\<close>.
\<close>

definition sdkMethodName :: "'f program \<Rightarrow> 'f \<Rightarrow> string" where
  "sdkMethodName p fn =
     (let fname = (if sdkVersion p fn = ''v1'' then TrimSuffix (fnName p fn) ''Request''
                   else fnName p fn)
      in fnPkgName p fn @ ''.'' @ fname)"

text \<open>
  The loop \<open>for fn := range graph.reachable\<close> of \<open>main\<close>, over the keys in the order
  visited, with the slice \<open>sdkMethods\<close> built so far. The flag is \<open>*reflectionFlag\<close>.
\<close>

fun collectSDKMethods ::
  "('f, 'n) graph \<Rightarrow> bool \<Rightarrow> 'f list \<Rightarrow> string list \<Rightarrow> (panic + string list) option" where
  "collectSDKMethods g reflection [] sdkMethods = Some (Inr sdkMethods)"
| "collectSDKMethods g reflection (fn0 # keys) sdkMethods =
     (if fnSynthetic (program g) fn0 \<noteq> [] then collectSDKMethods g reflection keys sdkMethods
      else
        (let fn = (case fnOrigin (program g) fn0 of Some orig \<Rightarrow> orig | None \<Rightarrow> fn0) in
         if fnParent (program g) fn \<noteq> None then collectSDKMethods g reflection keys sdkMethods
         else if sdkVersion (program g) fn = []
         then collectSDKMethods g reflection keys sdkMethods
         else if \<not> reflection
         then (case findPath g fn of
                 None \<Rightarrow> None
               | Some (Inl p) \<Rightarrow> Some (Inl p)
               | Some (Inr None) \<Rightarrow> collectSDKMethods g reflection keys sdkMethods
               | Some (Inr (Some path)) \<Rightarrow>
                   collectSDKMethods g reflection keys
                     (sdkMethods @ [sdkMethodName (program g) fn]))
         else collectSDKMethods g reflection keys
                (sdkMethods @ [sdkMethodName (program g) fn])))"

section \<open>The run of main\<close>

record flags =
  testFlag :: bool
  tagsFlag :: string
  reflectionFlag :: bool
  sdkcallsFlag :: bool
  whyFlag :: string

text \<open>
  What \<open>flag.Parse\<close> makes of the command line: it fails on an undefined flag or a
  bad value, it is asked for help by \<open>-h\<close> or \<open>-help\<close>, or it sets the flags and
  leaves the arguments of \<open>flag.Args()\<close>.
\<close>

datatype parsed = ParseFailed | HelpRequested | Parsed flags "string list"

text \<open>
  What the libraries hand to \<open>analyze\<close>: whether \<open>packages.Load\<close> returned an error,
  \<open>len(initial)\<close>, the count of \<open>packages.PrintErrors\<close>, for each package of
  \<open>ssautil.MainPackages\<close> its functions \<open>init\<close> and \<open>main\<close>, the SSA program, and the
  result of \<open>rta.Analyze\<close> for these roots.
\<close>

record ('f, 'n) loaded =
  loadFailed :: bool
  initial :: nat
  printErrors :: nat
  mains :: "('f \<times> 'f) list"
  ssaProgram :: "'f program"
  rtaCallGraph :: "('f, 'n) callGraph"
  rtaReachable :: "'f \<rightharpoonup> bool"

text \<open>The messages of \<open>log.Fatal\<close> and \<open>log.Fatalf\<close>, each followed by exit status 1.\<close>

datatype message =
    FailedToLoadPackage
  | NoPackages
  | PackagesContainErrors
  | NoMainPackages
  | WhyValueFormat
  | UnmarshalError
  | NoSDKMethodRequiresAction string
  | NoCallPathFound string
  | NoActiveUseOfAPI
  | NoNeededPermissions

definition analyze :: "('f, 'n) loaded \<Rightarrow> message + ('f, 'n) graph" where
  "analyze l =
     (if loadFailed l then Inl FailedToLoadPackage
      else if initial l = 0 then Inl NoPackages
      else if printErrors l > 0 then Inl PackagesContainErrors
      else if mains l = [] then Inl NoMainPackages
      else Inr \<lparr> program = ssaProgram l,
                 roots = concat (map (\<lambda>(i, m). [i, m]) (mains l)),
                 callgraph = rtaCallGraph l,
                 reachable = rtaReachable l \<rparr>)"

text \<open>
  The surroundings of a run: package \<open>strings\<close>, \<open>flag.Parse\<close> on a command line,
  the loader, the library's \<open>DeleteSyntheticNodes\<close>, whether \<open>json.Unmarshal\<close> of the
  embedded dataset fails, and for the k-th \<open>range\<close> over
  \<open>iamMap.SDKMethodIAMMappings\<close> and over \<open>graph.reachable\<close> the order it visits.
\<close>

record ('f, 'n) env =
  stringsPkg :: strings
  flagParse :: "string list \<Rightarrow> parsed"
  packagesLoad :: "bool \<Rightarrow> string \<Rightarrow> string list \<Rightarrow> ('f, 'n) loaded"
  DeleteSyntheticNodes :: "('f, 'n) callGraph \<Rightarrow> ('f, 'n) callGraph"
  unmarshalFails :: bool
  rangeMappings :: "nat \<Rightarrow> mappings"
  rangeReachable :: "nat \<Rightarrow> 'f list"

datatype ('f, 'n) found = Found "'n edge list" "('f, 'n) graph" | NotFound "('f, 'n) graph"

text \<open>
  The two nested loops of the \<open>-why\<close> branch. \<open>k\<close> counts the calls of \<open>findFunc\<close>
  made so far, which is the number of \<open>range\<close> statements over \<open>graph.reachable\<close>.
\<close>

fun tryNames ::
  "('f, 'n) env \<Rightarrow> ('f, 'n) graph \<Rightarrow> nat \<Rightarrow> string list \<Rightarrow> (panic + ('f, 'n) found) option" where
  "tryNames e g k [] = Some (Inr (NotFound g))"
| "tryNames e g k (fname # rest) =
     (case whyReachable (DeleteSyntheticNodes e) g (rangeReachable e k) fname of
        None \<Rightarrow> None
      | Some (Inl p) \<Rightarrow> Some (Inl p)
      | Some (Inr (Some path, g')) \<Rightarrow> Some (Inr (Found path g'))
      | Some (Inr (None, g')) \<Rightarrow> tryNames e g' (Suc k) rest)"

fun tryMethods ::
  "('f, 'n) env \<Rightarrow> ('f, 'n) graph \<Rightarrow> nat \<Rightarrow> string list \<Rightarrow> (panic + ('f, 'n) found) option" where
  "tryMethods e g k [] = Some (Inr (NotFound g))"
| "tryMethods e g k (method # rest) =
     (case possibleFunctionNames (stringsPkg e) method of
        Inl p \<Rightarrow> Some (Inl p)
      | Inr names \<Rightarrow>
          (case tryNames e g k names of
             None \<Rightarrow> None
           | Some (Inl p) \<Rightarrow> Some (Inl p)
           | Some (Inr (Found path g')) \<Rightarrow> Some (Inr (Found path g'))
           | Some (Inr (NotFound g')) \<Rightarrow> tryMethods e g' (k + length names) rest))"

text \<open>
  How a run ends: \<open>main\<close> returns after printing (exit status 0); \<open>log.Fatal\<close> prints a
  message and exits with status 1; \<open>usage(); os.Exit(2)\<close>; \<open>flag.Parse\<close>, which
  \<open>flag.CommandLine\<close> runs with \<open>flag.ExitOnError\<close>, prints the usage text and exits
  with status 0 when help was requested and with status 2 when parsing failed; a panic
  (exit status 2); or the run does not end.
\<close>

datatype outcome =
    Printed "printed list"
  | Fatal message
  | Usage
  | Help
  | BadFlag
  | Panicked panic
  | NoReturn


definition explain ::
  "('f, 'n) env \<Rightarrow> ('f, 'n) graph \<Rightarrow> mappings \<Rightarrow> string \<Rightarrow> outcome" where
  "explain e g entries why =
     (let sdkMethods = actionToSDKMethods (stringsPkg e) entries why in
      if sdkMethods = [] then Fatal (NoSDKMethodRequiresAction why)
      else (case tryMethods e g 0 sdkMethods of
              None \<Rightarrow> NoReturn
            | Some (Inl p) \<Rightarrow> Panicked p
            | Some (Inr (Found path g')) \<Rightarrow> Printed (printPath g' path)
            | Some (Inr (NotFound g')) \<Rightarrow> Fatal (NoCallPathFound why)))"

definition listing ::
  "('f, 'n) env \<Rightarrow> ('f, 'n) graph \<Rightarrow> bool \<Rightarrow> bool \<Rightarrow> (nat \<Rightarrow> mappings) \<Rightarrow> outcome" where
  "listing e g reflection sdkcalls entries =
     (case collectSDKMethods g reflection (rangeReachable e 0) [] of
        None \<Rightarrow> NoReturn
      | Some (Inl p) \<Rightarrow> Panicked p
      | Some (Inr sdkMethods) \<Rightarrow>
          if sdkMethods = [] then Fatal NoActiveUseOfAPI
          else if sdkcalls then Printed (map PrintLine sdkMethods)
          else
            (let iamActions =
                   filter (\<lambda>iamAction. iamAction \<noteq> [])
                     (map (\<lambda>(k, sdkMethod).
                             sdkMethodToAction (stringsPkg e) (entries k) sdkMethod)
                        (enumerate 0 sdkMethods))
             in if iamActions = [] then Fatal NoNeededPermissions
                else Printed (map PrintLine iamActions)))"

text \<open>
  \<open>main\<close> on the command line \<open>os.Args[1:]\<close>. Without \<open>loadMap\<close> the map
  \<open>iamMap.SDKMethodIAMMappings\<close> stays nil and a \<open>range\<close> over it visits nothing.
\<close>

definition main :: "('f, 'n) env \<Rightarrow> string list \<Rightarrow> outcome" where
  "main e argv =
     (case flagParse e argv of
        ParseFailed \<Rightarrow> BadFlag
      | HelpRequested \<Rightarrow> Help
      | Parsed fl args \<Rightarrow>
          if args = [] then Usage
          else if whyFlag fl \<noteq> [] \<and> \<not> whyFormat (whyFlag fl) then Fatal WhyValueFormat
          else (case analyze (packagesLoad e (testFlag fl) (tagsFlag fl) args) of
                  Inl m \<Rightarrow> Fatal m
                | Inr g \<Rightarrow>
                    if \<not> sdkcallsFlag fl \<and> unmarshalFails e then Fatal UnmarshalError
                    else
                      (let entries = (\<lambda>k. if sdkcallsFlag fl then [] else rangeMappings e k) in
                       if whyFlag fl \<noteq> [] then explain e g (entries 0) (whyFlag fl)
                       else listing e g (reflectionFlag fl) (sdkcallsFlag fl) entries)))"

section \<open>Paths in the call graph\<close>

text \<open>
  The call relation between nodes; a path of edges from one node to another, each
  edge among the out-edges of the node it starts from; the least number of calls that
  lead from one node to another.
\<close>

definition calls :: "('f, 'n) callGraph \<Rightarrow> ('n \<times> 'n) set" where
  "calls cg = {(n, Callee e) | n e. e \<in> set (Out cg n)}"

fun callPath :: "('f, 'n) callGraph \<Rightarrow> 'n \<Rightarrow> 'n edge list \<Rightarrow> 'n \<Rightarrow> bool" where
  "callPath cg a [] b = (a = b)"
| "callPath cg a (e # p) b =
     (e \<in> set (Out cg a) \<and> Caller e = a \<and> callPath cg (Callee e) p b)"

definition hops :: "('f, 'n) callGraph \<Rightarrow> 'n \<Rightarrow> 'n \<Rightarrow> nat" where
  "hops cg r n = (LEAST k. (r, n) \<in> calls cg ^^ k)"

text \<open>
  A path from node \<open>r\<close> to a node of function \<open>target\<close> that no other such path
  undercuts in length.
\<close>

definition shortestTo :: "('f, 'n) callGraph \<Rightarrow> 'n \<Rightarrow> 'f \<Rightarrow> 'n edge list \<Rightarrow> bool" where
  "shortestTo cg r target p \<longleftrightarrow>
     (\<exists>x. callPath cg r p x \<and> Func cg x = target) \<and>
     (\<forall>p' y. callPath cg r p' y \<and> Func cg y = target \<longrightarrow> length p \<le> length p')"

text \<open>
  The target function is reachable from a root function: the root has a node, and
  calls lead from it to a node of the target.
\<close>

definition reaches :: "('f, 'n) callGraph \<Rightarrow> 'f \<Rightarrow> 'f \<Rightarrow> bool" where
  "reaches cg root target \<longleftrightarrow>
     (\<exists>r x. Nodes cg root = Some r \<and> (r, x) \<in> (calls cg)\<^sup>* \<and> Func cg x = target)"

text \<open>
  What the library guarantees of a graph it has built: \<open>Nodes\<close> is a finite map, the
  out-edges of a node of the map have that node as their caller, and their callees
  are nodes of the map.
\<close>

definition wellFormed :: "('f, 'n) callGraph \<Rightarrow> bool" where
  "wellFormed cg \<longleftrightarrow>
     finite (dom (Nodes cg)) \<and>
     (\<forall>n\<in>ran (Nodes cg). \<forall>e\<in>set (Out cg n). Caller e = n \<and> Callee e \<in> ran (Nodes cg))"

subsection \<open>The invariant of the search\<close>

text \<open>
  The path that the back-edges of \<open>visited\<close> spell for a node, from the start.
\<close>

inductive backPath :: "'n visited \<Rightarrow> 'n \<Rightarrow> 'n edge list \<Rightarrow> bool" for visited where
  atStart: "visited n = Some None \<Longrightarrow> backPath visited n []"
| viaEdge: "visited n = Some (Some e) \<Longrightarrow> backPath visited (Caller e) p
             \<Longrightarrow> backPath visited n (p @ [e])"

definition settled :: "('f, 'n) callGraph \<Rightarrow> 'f \<Rightarrow> 'n visited \<Rightarrow> 'n \<Rightarrow> bool" where
  "settled cg target v n \<longleftrightarrow>
     (\<forall>e\<in>set (Out cg n). Callee e \<in> dom v) \<and> Func cg n \<noteq> target"

definition tracked :: "('f, 'n) callGraph \<Rightarrow> 'n \<Rightarrow> 'n visited \<Rightarrow> bool" where
  "tracked cg r v \<longleftrightarrow>
     (\<forall>n\<in>dom v. \<exists>p. backPath v n p \<and> callPath cg r p n \<and> length p = hops cg r n)"

definition loopInv ::
  "('f, 'n) callGraph \<Rightarrow> 'n \<Rightarrow> 'f \<Rightarrow> 'n visited \<Rightarrow> 'n list \<Rightarrow> bool" where
  "loopInv cg r target v q \<longleftrightarrow>
     r \<in> dom v \<and> tracked cg r v \<and> set q \<subseteq> dom v \<and>
     sorted (map (hops cg r) q) \<and>
     (\<forall>x\<in>set q. hops cg r x \<le> hops cg r (hd q) + 1) \<and>
     (\<forall>n\<in>dom v. n \<notin> set q \<longrightarrow> settled cg target v n)"

definition midInv ::
  "('f, 'n) callGraph \<Rightarrow> 'n \<Rightarrow> 'f \<Rightarrow> 'n \<Rightarrow> 'n visited \<Rightarrow> 'n list \<Rightarrow> bool" where
  "midInv cg r target cur v q \<longleftrightarrow>
     tracked cg r v \<and> cur \<in> dom v \<and> set q \<subseteq> dom v \<and>
     sorted (map (hops cg r) q) \<and>
     (\<forall>x\<in>set q. hops cg r cur \<le> hops cg r x \<and> hops cg r x \<le> hops cg r cur + 1) \<and>
     (\<forall>n\<in>dom v. n \<notin> set q \<longrightarrow> n \<noteq> cur \<longrightarrow> settled cg target v n) \<and>
     (\<forall>k x. (r, x) \<in> calls cg ^^ k \<longrightarrow> k \<le> hops cg r cur \<longrightarrow> x \<in> dom v)"

section \<open>What the loop of main collects\<close>

text \<open>
  The function that the loop of \<open>main\<close> classifies for a key of \<open>graph.reachable\<close>:
  the origin of a key that is not synthetic, when it has no parent and \<open>sdkVersion\<close>
  recognises it.
\<close>

definition classified :: "('f, 'n) graph \<Rightarrow> 'f \<Rightarrow> 'f option" where
  "classified g fn0 =
     (if fnSynthetic (program g) fn0 \<noteq> [] then None
      else
        (let fn = (case fnOrigin (program g) fn0 of Some orig \<Rightarrow> orig | None \<Rightarrow> fn0) in
         if fnParent (program g) fn \<noteq> None \<or> sdkVersion (program g) fn = [] then None
         else Some fn))"


section \<open>The situations of a run\<close>




text \<open>
  What holds of \<open>strings.EqualFold\<close>: it compares the code points of two strings up to
  the case classes of Unicode, which makes it an equivalence.
\<close>

definition caseEquivalence :: "strings \<Rightarrow> bool" where
  "caseEquivalence lib \<longleftrightarrow>
     (\<forall>s. EqualFold lib s s) \<and>
     (\<forall>s t. EqualFold lib s t \<longrightarrow> EqualFold lib t s) \<and>
     (\<forall>s t u. EqualFold lib s t \<and> EqualFold lib t u \<longrightarrow> EqualFold lib s u)"

text \<open>No two keys of the dataset are equal up to letter case.\<close>

definition caseDistinct :: "strings \<Rightarrow> mappings \<Rightarrow> bool" where
  "caseDistinct lib m \<longleftrightarrow>
     (\<forall>k\<in>set (map fst m). \<forall>k'\<in>set (map fst m). EqualFold lib k k' \<longrightarrow> k = k')"

text \<open>
  Two lists of entries are visiting orders of the same Go map: the keys of each are
  distinct and the entries are the same.
\<close>

definition sameMap :: "mappings \<Rightarrow> mappings \<Rightarrow> bool" where
  "sameMap m m' \<longleftrightarrow> distinct (map fst m) \<and> distinct (map fst m') \<and> set m = set m'"





section \<open>Example inputs\<close>

text \<open>
  Package \<open>strings\<close> as it behaves on strings of ASCII characters, which is what all
  examples below are made of: a letter \<open>A\<close> to \<open>Z\<close> is lowered by adding 32 and every
  other character is kept; two strings are equal up to case when their lowered forms
  are equal.
\<close>

definition asciiLower :: "char \<Rightarrow> char" where
  "asciiLower c =
     (let n = (of_char c :: nat) in if 65 \<le> n \<and> n \<le> 90 then char_of (n + 32) else c)"

definition ascii :: strings where
  "ascii = \<lparr> EqualFold = (\<lambda>s t. map asciiLower s = map asciiLower t),
             ToLower = map asciiLower \<rparr>"

definition call :: "nat \<Rightarrow> nat \<Rightarrow> nat edge" where
  "call a b = \<lparr> Caller = a, Site = None, Callee = b \<rparr>"

definition noProgram :: "string program" where
  "noProgram =
     \<lparr> fnSynthetic = (\<lambda>fn. []), fnOrigin = (\<lambda>fn. None), fnParent = (\<lambda>fn. None),
       fnObject = (\<lambda>fn. True), fnString = (\<lambda>fn. fn), fnName = (\<lambda>fn. fn),
       fnPkgPath = (\<lambda>fn. []), fnPkgName = (\<lambda>fn. []), fnFilename = (\<lambda>fn. []),
       fnLine = (\<lambda>fn. 0), fnColumn = (\<lambda>fn. 0) \<rparr>"

text \<open>
  The graph \<open>root -> a -> b -> target\<close> with the direct edge \<open>root -> target\<close>; the
  edge to \<open>a\<close> comes first among the out-edges of \<open>root\<close>.
\<close>

definition diamond :: "(string, nat) callGraph" where
  "diamond =
     \<lparr> Nodes = [''root'' \<mapsto> 0, ''a'' \<mapsto> 1, ''b'' \<mapsto> 2, ''target'' \<mapsto> 3],
       Func = (\<lambda>n. if n = 0 then ''root'' else if n = 1 then ''a''
                   else if n = 2 then ''b'' else ''target''),
       Out = (\<lambda>n. if n = 0 then [call 0 1, call 0 3] else if n = 1 then [call 1 2]
                  else if n = 2 then [call 2 3] else []),
       Description = (\<lambda>e. ''static function call'') \<rparr>"

definition diamondGraph :: "(string, nat) graph" where
  "diamondGraph =
     \<lparr> program = noProgram, roots = [''root''], callgraph = diamond,
       reachable = [''root'' \<mapsto> False, ''a'' \<mapsto> False, ''b'' \<mapsto> False, ''target'' \<mapsto> False] \<rparr>"

text \<open>
  Two roots: \<open>init -> a -> target\<close> and \<open>main -> target\<close>; moreover \<open>init -> main\<close>.
\<close>

definition twoRoots :: "(string, nat) callGraph" where
  "twoRoots =
     \<lparr> Nodes = [''init'' \<mapsto> 0, ''main'' \<mapsto> 1, ''a'' \<mapsto> 2, ''target'' \<mapsto> 3],
       Func = (\<lambda>n. if n = 0 then ''init'' else if n = 1 then ''main''
                   else if n = 2 then ''a'' else ''target''),
       Out = (\<lambda>n. if n = 0 then [call 0 2, call 0 1] else if n = 1 then [call 1 3]
                  else if n = 2 then [call 2 3] else []),
       Description = (\<lambda>e. ''static function call'') \<rparr>"

definition twoRootsGraph :: "(string, nat) graph" where
  "twoRootsGraph =
     \<lparr> program = noProgram, roots = [''init'', ''main''], callgraph = twoRoots,
       reachable = [''init'' \<mapsto> False, ''main'' \<mapsto> False, ''a'' \<mapsto> False, ''target'' \<mapsto> False] \<rparr>"

text \<open>The same calls with \<open>main\<close> as the first root.\<close>

definition mainFirstGraph :: "(string, nat) graph" where
  "mainFirstGraph = twoRootsGraph\<lparr> roots := [''main'', ''init''] \<rparr>"

text \<open>
  Two roots that do not call each other: \<open>init -> a\<close> and \<open>main -> target\<close>.
\<close>

definition apart :: "(string, nat) callGraph" where
  "apart =
     \<lparr> Nodes = [''init'' \<mapsto> 0, ''main'' \<mapsto> 1, ''a'' \<mapsto> 2, ''target'' \<mapsto> 3],
       Func = (\<lambda>n. if n = 0 then ''init'' else if n = 1 then ''main''
                   else if n = 2 then ''a'' else ''target''),
       Out = (\<lambda>n. if n = 0 then [call 0 2] else if n = 1 then [call 1 3] else []),
       Description = (\<lambda>e. ''static function call'') \<rparr>"

definition apartGraph :: "(string, nat) graph" where
  "apartGraph =
     \<lparr> program = noProgram, roots = [''init'', ''main''], callgraph = apart,
       reachable = [''init'' \<mapsto> False, ''main'' \<mapsto> False, ''a'' \<mapsto> False, ''target'' \<mapsto> False] \<rparr>"

text \<open>A dataset: one method with two actions, one with one, one with none.\<close>

definition dataset :: mappings where
  "dataset =
     [(''SSM.GetParameter'', [\<lparr> Action = ''ssm:GetParameter'' \<rparr>, \<lparr> Action = ''kms:Decrypt'' \<rparr>]),
      (''SSM.GetParameters'', [\<lparr> Action = ''ssm:GetParameter'' \<rparr>]),
      (''STS.GetCallerIdentity'', [])]"

text \<open>
  A function of SDK v2 and one of SDK v1 for the same operation of the same service.
\<close>

definition sdkProgram :: "string program" where
  "sdkProgram =
     \<lparr> fnSynthetic = (\<lambda>fn. []), fnOrigin = (\<lambda>fn. None), fnParent = (\<lambda>fn. None),
       fnObject = (\<lambda>fn. True), fnString = (\<lambda>fn. fn),
       fnName = (\<lambda>fn. if fn = ''v2'' then ''GetObject''
                        else if fn = ''v1'' then ''GetObjectRequest'' else fn),
       fnPkgPath = (\<lambda>fn. if fn = ''v2'' then ''github.com/aws/aws-sdk-go-v2/service/s3''
                           else if fn = ''v1'' then ''github.com/aws/aws-sdk-go/service/s3''
                           else ''example.com/app''),
       fnPkgName = (\<lambda>fn. if fn = ''v2'' \<or> fn = ''v1'' then ''s3'' else ''main''),
       fnFilename = (\<lambda>fn. if fn = ''v2'' then ''/mod/s3/api_op_GetObject.go''
                            else if fn = ''v1'' then ''/mod/s3/api.go'' else ''/app/main.go''),
       fnLine = (\<lambda>fn. 1), fnColumn = (\<lambda>fn. 1) \<rparr>"

text \<open>
  An application whose \<open>main\<close> calls \<open>GetParameter\<close> of SDK v2 directly and \<open>GetParameters\<close>
  through a helper; a function is identified with its \<open>String\<close>.
\<close>

definition getParameter :: string where
  "getParameter = ''(*github.com/aws/aws-sdk-go-v2/service/ssm.Client).GetParameter''"

definition getParameters :: string where
  "getParameters = ''(*github.com/aws/aws-sdk-go-v2/service/ssm.Client).GetParameters''"

definition appProgram :: "string program" where
  "appProgram =
     \<lparr> fnSynthetic = (\<lambda>fn. if fn = ''init'' then ''package initializer'' else []),
       fnOrigin = (\<lambda>fn. None), fnParent = (\<lambda>fn. None),
       fnObject = (\<lambda>fn. True), fnString = (\<lambda>fn. fn),
       fnName = (\<lambda>fn. if fn = getParameter then ''GetParameter''
                        else if fn = getParameters then ''GetParameters'' else fn),
       fnPkgPath = (\<lambda>fn. if fn = getParameter \<or> fn = getParameters
                           then ''github.com/aws/aws-sdk-go-v2/service/ssm''
                           else ''example.com/app''),
       fnPkgName = (\<lambda>fn. if fn = getParameter \<or> fn = getParameters then ''ssm'' else ''main''),
       fnFilename = (\<lambda>fn. if fn = getParameter then ''/mod/ssm/api_op_GetParameter.go''
                            else if fn = getParameters then ''/mod/ssm/api_op_GetParameters.go''
                            else ''/app/main.go''),
       fnLine = (\<lambda>fn. 1), fnColumn = (\<lambda>fn. 1) \<rparr>"

definition app :: "(string, nat) callGraph" where
  "app =
     \<lparr> Nodes = [''init'' \<mapsto> 0, ''main'' \<mapsto> 1, ''helper'' \<mapsto> 2, getParameter \<mapsto> 3, getParameters \<mapsto> 4],
       Func = (\<lambda>n. if n = 0 then ''init'' else if n = 1 then ''main''
                   else if n = 2 then ''helper'' else if n = 3 then getParameter else getParameters),
       Out = (\<lambda>n. if n = 1 then [call 1 3, call 1 2] else if n = 2 then [call 2 4] else []),
       Description = (\<lambda>e. ''static method call'') \<rparr>"

definition appKeys :: "string list" where
  "appKeys = [''init'', ''main'', ''helper'', getParameter, getParameters]"


definition appGraph :: "(string, nat) graph" where
  "appGraph =
     \<lparr> program = appProgram, roots = [''init'', ''main''], callgraph = app,
       reachable = map_of (map (\<lambda>fn. (fn, False)) appKeys) \<rparr>"











text \<open>A dataset with two keys that are equal up to letter case.\<close>

definition collide :: mappings where
  "collide = [(''a.B'', [\<lparr> Action = ''a:One'' \<rparr>]), (''A.b'', [\<lparr> Action = ''b:Two'' \<rparr>])]"

text \<open>
  The application with \<open>helper\<close> never called: \<open>GetParameters\<close> is among the reachable
  functions, but no call path leads to it.
\<close>

definition valueOnly :: "(string, nat) graph" where
  "valueOnly =
     appGraph\<lparr> callgraph := app\<lparr> Out := (\<lambda>n. if n = 1 then [call 1 3] else []) \<rparr> \<rparr>"

declare traverseBack.simps [code]
declare bfsLoop.simps [code]

section \<open>Correctness of the search\<close>

lemma hops_le: "(r, n) \<in> calls cg ^^ k \<Longrightarrow> hops cg r n \<le> k"
  unfolding hops_def by (rule Least_le)

lemma hops_relpow: "(r, n) \<in> (calls cg)\<^sup>* \<Longrightarrow> (r, n) \<in> calls cg ^^ hops cg r n"
proof -
  assume "(r, n) \<in> (calls cg)\<^sup>*"
  then obtain k where "(r, n) \<in> calls cg ^^ k" by (auto simp: rtrancl_power)
  then show ?thesis unfolding hops_def by (rule LeastI)
qed

lemma callPath_relpow: "callPath cg a p b \<Longrightarrow> (a, b) \<in> calls cg ^^ length p"
proof (induction p arbitrary: a)
  case Nil
  then show ?case by simp
next
  case (Cons e p)
  then have "(a, Callee e) \<in> calls cg" and "(Callee e, b) \<in> calls cg ^^ length p"
    by (auto simp: calls_def)
  then have "(a, b) \<in> calls cg ^^ Suc (length p)" by (rule relpow_Suc_I2)
  then show ?case by simp
qed

lemma callPath_snoc:
  "callPath cg a p b \<Longrightarrow> e \<in> set (Out cg b) \<Longrightarrow> Caller e = b
     \<Longrightarrow> callPath cg a (p @ [e]) (Callee e)"
  by (induction p arbitrary: a) auto

lemma relpow_callPath:
  assumes own: "\<forall>n. (a, n) \<in> (calls cg)\<^sup>* \<longrightarrow> (\<forall>e\<in>set (Out cg n). Caller e = n)"
  shows "(a, b) \<in> calls cg ^^ k \<Longrightarrow> \<exists>p. callPath cg a p b \<and> length p = k"
proof (induction k arbitrary: b)
  case 0
  then have "callPath cg a [] b" by simp
  then show ?case by fastforce
next
  case (Suc k)
  then obtain u where u: "(a, u) \<in> calls cg ^^ k" and ub: "(u, b) \<in> calls cg" by auto
  from Suc.IH[OF u] obtain p where p: "callPath cg a p u" "length p = k" by blast
  from ub obtain e where e: "e \<in> set (Out cg u)" "Callee e = b" by (auto simp: calls_def)
  from u have "(a, u) \<in> (calls cg)\<^sup>*" by (rule relpow_imp_rtrancl)
  with own e have "Caller e = u" by blast
  with callPath_snoc[OF p(1) e(1)] e(2) have "callPath cg a (p @ [e]) b" by simp
  with p(2) show ?case by (intro exI[of _ "p @ [e]"]) simp
qed

lemma traverseBack_backPath:
  "backPath visited n p \<Longrightarrow> traverseBack visited n acc = Some (p @ rev acc)"
proof (induction arbitrary: acc rule: backPath.induct)
  case (atStart n)
  then show ?case by (subst traverseBack.simps) simp
next
  case (viaEdge n e p)
  show ?case
    by (subst traverseBack.simps) (simp add: viaEdge.hyps(1) viaEdge.IH)
qed

lemma backPath_extend:
  "backPath visited n p \<Longrightarrow> visited c = None \<Longrightarrow> backPath (visited(c \<mapsto> x)) n p"
proof (induction rule: backPath.induct)
  case (atStart n)
  then have "(visited(c \<mapsto> x)) n = Some None" by auto
  then show ?case by (rule backPath.atStart)
next
  case (viaEdge n e p)
  then have "(visited(c \<mapsto> x)) n = Some (Some e)" by auto
  then show ?case using viaEdge.IH[OF viaEdge.prems] by (rule backPath.viaEdge)
qed

lemma tracked_reach:
  assumes "tracked cg r v" "n \<in> dom v"
  shows "(r, n) \<in> (calls cg)\<^sup>*"
proof -
  from assms obtain p where "callPath cg r p n" unfolding tracked_def by blast
  then have "(r, n) \<in> calls cg ^^ length p" by (rule callPath_relpow)
  then show ?thesis by (rule relpow_imp_rtrancl)
qed

lemma loopInv_level:
  assumes inv: "loopInv cg r target v (cur # q)"
  shows "(r, x) \<in> calls cg ^^ k \<Longrightarrow> k \<le> hops cg r cur \<Longrightarrow> x \<in> dom v"
proof (induction k arbitrary: x)
  case 0
  with inv show ?case by (simp add: loopInv_def)
next
  case (Suc k)
  then obtain u where u: "(r, u) \<in> calls cg ^^ k" and ux: "(u, x) \<in> calls cg" by auto
  from Suc.prems have k: "k < hops cg r cur" by simp
  with Suc.IH[OF u] have udom: "u \<in> dom v" by simp
  have uk: "hops cg r u \<le> k" using u by (rule hops_le)
  from inv have srt: "sorted (map (hops cg r) (cur # q))" by (simp add: loopInv_def)
  have "u \<notin> set (cur # q)"
  proof
    assume "u \<in> set (cur # q)"
    with srt have "hops cg r cur \<le> hops cg r u" by auto
    with uk k show False by simp
  qed
  with inv udom have "settled cg target v u" unfolding loopInv_def by blast
  with ux show ?case by (auto simp: settled_def calls_def)
qed

lemma loopInv_midInv:
  assumes inv: "loopInv cg r target v (cur # q)"
  shows "midInv cg r target cur v q"
proof -
  from inv have srt: "sorted (map (hops cg r) (cur # q))" by (simp add: loopInv_def)
  from inv have near: "\<forall>x\<in>set q. hops cg r x \<le> hops cg r cur + 1" by (simp add: loopInv_def)
  from srt have far: "\<forall>x\<in>set q. hops cg r cur \<le> hops cg r x" by auto
  from inv have rest: "tracked cg r v" "cur \<in> dom v" "set q \<subseteq> dom v"
    "\<forall>n\<in>dom v. n \<notin> set q \<longrightarrow> n \<noteq> cur \<longrightarrow> settled cg target v n"
    by (auto simp: loopInv_def)
  from srt have "sorted (map (hops cg r) q)" by simp
  with near far rest loopInv_level[OF inv] show ?thesis
    unfolding midInv_def by blast
qed

lemma settled_mono:
  "settled cg target v n \<Longrightarrow> dom v \<subseteq> dom v' \<Longrightarrow> settled cg target v' n"
  unfolding settled_def by blast

lemma midInv_step:
  assumes inv: "midInv cg r target cur v q"
    and e: "e \<in> set (Out cg cur)" "Caller e = cur"
    and new: "v (Callee e) = None"
  shows "midInv cg r target cur (v(Callee e \<mapsto> Some e)) (q @ [Callee e])"
proof -
  let ?c = "Callee e" and ?v = "v(Callee e \<mapsto> Some e)" and ?d = "hops cg r"
  from inv have tr: "tracked cg r v" and cur: "cur \<in> dom v"
    and lvl: "\<And>k x. (r, x) \<in> calls cg ^^ k \<Longrightarrow> k \<le> ?d cur \<Longrightarrow> x \<in> dom v"
    unfolding midInv_def by blast+
  from tr cur obtain p where p: "backPath v cur p" "callPath cg r p cur" "length p = ?d cur"
    unfolding tracked_def by blast
  have pe: "callPath cg r (p @ [e]) ?c" using p(2) e by (rule callPath_snoc)
  then have reach: "(r, ?c) \<in> calls cg ^^ Suc (?d cur)"
    using callPath_relpow[OF pe] p(3) by simp
  have up: "?d ?c \<le> Suc (?d cur)" using reach by (rule hops_le)
  have low: "?d cur < ?d ?c"
  proof (rule ccontr)
    assume "\<not> ?d cur < ?d ?c"
    then have le: "?d ?c \<le> ?d cur" by simp
    from reach have "(r, ?c) \<in> (calls cg)\<^sup>*" by (rule relpow_imp_rtrancl)
    then have "(r, ?c) \<in> calls cg ^^ ?d ?c" by (rule hops_relpow)
    from lvl[OF this le] new show False by auto
  qed
  from up low have dc: "?d ?c = Suc (?d cur)" by simp
  have tr': "tracked cg r ?v"
    unfolding tracked_def
  proof
    fix n assume n: "n \<in> dom ?v"
    show "\<exists>p. backPath ?v n p \<and> callPath cg r p n \<and> length p = ?d n"
    proof (cases "n = ?c")
      case True
      have "backPath ?v cur p" using p(1) new by (rule backPath_extend)
      moreover have "?v ?c = Some (Some e)" by simp
      ultimately have "backPath ?v ?c (p @ [e])" using e(2) by (auto intro: backPath.viaEdge)
      with pe dc p(3) True show ?thesis by (intro exI[of _ "p @ [e]"]) simp
    next
      case False
      with n have "n \<in> dom v" by auto
      with tr obtain p' where p': "backPath v n p'" "callPath cg r p' n" "length p' = ?d n"
        unfolding tracked_def by blast
      from p'(1) new have "backPath ?v n p'" by (rule backPath_extend)
      with p' show ?thesis by blast
    qed
  qed
  from inv have srt: "sorted (map ?d q)"
    and band: "\<forall>x\<in>set q. ?d cur \<le> ?d x \<and> ?d x \<le> ?d cur + 1"
    and qs: "set q \<subseteq> dom v"
    and stl: "\<forall>n\<in>dom v. n \<notin> set q \<longrightarrow> n \<noteq> cur \<longrightarrow> settled cg target v n"
    unfolding midInv_def by blast+
  have srt': "sorted (map ?d (q @ [?c]))"
    using srt band dc by (auto simp: sorted_append)
  have band': "\<forall>x\<in>set (q @ [?c]). ?d cur \<le> ?d x \<and> ?d x \<le> ?d cur + 1"
    using band dc by auto
  have stl': "\<forall>n\<in>dom ?v. n \<notin> set (q @ [?c]) \<longrightarrow> n \<noteq> cur \<longrightarrow> settled cg target ?v n"
  proof (intro ballI impI)
    fix n assume "n \<in> dom ?v" "n \<notin> set (q @ [?c])" "n \<noteq> cur"
    then have "n \<in> dom v" "n \<notin> set q" by auto
    with stl \<open>n \<noteq> cur\<close> have "settled cg target v n" by blast
    then show "settled cg target ?v n" by (rule settled_mono) auto
  qed
  have lvl': "\<forall>k x. (r, x) \<in> calls cg ^^ k \<longrightarrow> k \<le> ?d cur \<longrightarrow> x \<in> dom ?v"
    using lvl by auto
  have "cur \<in> dom ?v" "set (q @ [?c]) \<subseteq> dom ?v" using cur qs by auto
  with tr' srt' band' stl' lvl' show ?thesis unfolding midInv_def by blast
qed

lemma visitOut_midInv:
  assumes fin: "finite ((calls cg)\<^sup>* `` {r})"
  shows "midInv cg r target cur v q \<Longrightarrow> set es \<subseteq> set (Out cg cur)
    \<Longrightarrow> \<forall>e\<in>set es. Caller e = cur \<Longrightarrow> visitOut es v q = (v', q')
    \<Longrightarrow> midInv cg r target cur v' q' \<and> dom v \<subseteq> dom v' \<and> (\<forall>e\<in>set es. Callee e \<in> dom v') \<and>
        card ((calls cg)\<^sup>* `` {r} - dom v') + length q'
          = card ((calls cg)\<^sup>* `` {r} - dom v) + length q"
proof (induction es arbitrary: v q)
  case Nil
  then show ?case by simp
next
  case (Cons e es)
  let ?R = "(calls cg)\<^sup>* `` {r}"
  from Cons.prems have e: "e \<in> set (Out cg cur)" "Caller e = cur"
    and es: "set es \<subseteq> set (Out cg cur)" "\<forall>e\<in>set es. Caller e = cur" by auto
  show ?case
  proof (cases "v (Callee e) = None")
    case False
    with Cons.prems have run: "visitOut es v q = (v', q')" by simp
    from Cons.IH[OF Cons.prems(1) es run] False show ?thesis by auto
  next
    case True
    let ?v = "v(Callee e \<mapsto> Some e)" and ?q = "q @ [Callee e]"
    from True Cons.prems have run: "visitOut es ?v ?q = (v', q')" by simp
    have mid: "midInv cg r target cur ?v ?q" using Cons.prems(1) e True by (rule midInv_step)
    note ih = Cons.IH[OF mid es run]
    from Cons.prems(1) have "tracked cg r v" "cur \<in> dom v" unfolding midInv_def by blast+
    then have "(r, cur) \<in> (calls cg)\<^sup>*" by (rule tracked_reach)
    moreover have "(cur, Callee e) \<in> calls cg" using e by (auto simp: calls_def)
    ultimately have "Callee e \<in> ?R" by auto
    with True have mem: "Callee e \<in> ?R - dom v" by auto
    have "?R - dom ?v = (?R - dom v) - {Callee e}" by auto
    then have "card (?R - dom ?v) = card ((?R - dom v) - {Callee e})" by (rule arg_cong)
    moreover have "card (?R - dom v) = Suc (card ((?R - dom v) - {Callee e}))"
      using fin mem by (intro card.remove) auto
    ultimately have meas: "card (?R - dom ?v) + length ?q = card (?R - dom v) + length q"
      by simp
    from ih have a: "midInv cg r target cur v' q'" and b: "dom ?v \<subseteq> dom v'"
      and c: "\<forall>e\<in>set es. Callee e \<in> dom v'"
      and d: "card (?R - dom v') + length q' = card (?R - dom ?v) + length ?q"
      by blast+
    from b have b1: "dom v \<subseteq> dom v'" and b2: "Callee e \<in> dom v'" by auto
    from c b2 have c': "\<forall>e'\<in>set (e # es). Callee e' \<in> dom v'" by simp
    from d meas have "card (?R - dom v') + length q' = card (?R - dom v) + length q"
      by (rule trans)
    with a b1 c' show ?thesis by blast
  qed
qed

lemma midInv_loopInv:
  assumes mid: "midInv cg r target cur v q"
    and out: "\<forall>e\<in>set (Out cg cur). Callee e \<in> dom v"
    and nt: "Func cg cur \<noteq> target"
    and r: "r \<in> dom v"
  shows "loopInv cg r target v q"
proof -
  let ?d = "hops cg r"
  from mid have band: "\<forall>x\<in>set q. ?d cur \<le> ?d x \<and> ?d x \<le> ?d cur + 1"
    and stl: "\<forall>n\<in>dom v. n \<notin> set q \<longrightarrow> n \<noteq> cur \<longrightarrow> settled cg target v n"
    and rest: "tracked cg r v" "set q \<subseteq> dom v" "sorted (map ?d q)"
    unfolding midInv_def by blast+
  have near: "\<forall>x\<in>set q. ?d x \<le> ?d (hd q) + 1"
  proof
    fix x assume x: "x \<in> set q"
    then have "hd q \<in> set q" by (cases q) auto
    with band have "?d cur \<le> ?d (hd q)" by blast
    moreover from band x have "?d x \<le> ?d cur + 1" by blast
    ultimately show "?d x \<le> ?d (hd q) + 1" by linarith
  qed
  have "settled cg target v cur" using out nt by (simp add: settled_def)
  with stl have "\<forall>n\<in>dom v. n \<notin> set q \<longrightarrow> settled cg target v n" by blast
  with near rest r show ?thesis unfolding loopInv_def by blast
qed

lemma bfsLoop_total:
  assumes fin: "finite ((calls cg)\<^sup>* `` {r})"
    and own: "\<forall>n. (r, n) \<in> (calls cg)\<^sup>* \<longrightarrow> (\<forall>e\<in>set (Out cg n). Caller e = n)"
  shows "loopInv cg r target v q
    \<Longrightarrow> card ((calls cg)\<^sup>* `` {r} - dom v) + length q = m
    \<Longrightarrow> (\<exists>p. bfsLoop cg target v q = Some (Some p) \<and> shortestTo cg r target p) \<or>
        (bfsLoop cg target v q = Some None \<and>
         (\<forall>x. (r, x) \<in> (calls cg)\<^sup>* \<longrightarrow> Func cg x \<noteq> target))"
proof (induction m arbitrary: v q rule: less_induct)
  case (less m)
  note inv = less.prems(1)
  show ?case
  proof (cases q)
    case Nil
    have closed: "(r, x) \<in> (calls cg)\<^sup>* \<Longrightarrow> x \<in> dom v" for x
    proof (induction rule: rtrancl_induct)
      case base
      from inv show ?case by (simp add: loopInv_def)
    next
      case (step y z)
      with inv Nil have "settled cg target v y" unfolding loopInv_def by auto
      with step.hyps(2) show ?case by (auto simp: settled_def calls_def)
    qed
    have "Func cg x \<noteq> target" if "(r, x) \<in> (calls cg)\<^sup>*" for x
    proof -
      from closed[OF that] inv Nil have "settled cg target v x" unfolding loopInv_def by auto
      then show ?thesis by (simp add: settled_def)
    qed
    moreover have "bfsLoop cg target v q = Some None"
      using Nil by (subst bfsLoop.simps) simp
    ultimately show ?thesis by blast
  next
    case (Cons cur q0)
    show ?thesis
    proof (cases "Func cg cur = target")
      case True
      from inv Cons have "tracked cg r v" "cur \<in> dom v" by (auto simp: loopInv_def)
      then obtain p where p: "backPath v cur p" "callPath cg r p cur"
        "length p = hops cg r cur" unfolding tracked_def by blast
      have run: "bfsLoop cg target v q = Some (Some p)"
        using Cons True traverseBack_backPath[OF p(1), of "[]"]
        by (subst bfsLoop.simps) simp
      have "length p \<le> length p'" if p': "callPath cg r p' y" "Func cg y = target" for p' y
      proof (rule ccontr)
        assume "\<not> length p \<le> length p'"
        with p(3) have lt: "length p' < hops cg r cur" by simp
        have ry: "(r, y) \<in> calls cg ^^ length p'" using p'(1) by (rule callPath_relpow)
        from inv Cons have inv': "loopInv cg r target v (cur # q0)" by simp
        from loopInv_level[OF inv' ry] lt have ydom: "y \<in> dom v" by simp
        have "hops cg r y \<le> length p'" using ry by (rule hops_le)
        with lt have ylt: "hops cg r y < hops cg r cur" by simp
        from inv' have "sorted (map (hops cg r) (cur # q0))" by (simp add: loopInv_def)
        with ylt have "y \<notin> set (cur # q0)" by auto
        with inv' ydom have "settled cg target v y" unfolding loopInv_def by blast
        with p'(2) show False by (simp add: settled_def)
      qed
      with p(2) True have "shortestTo cg r target p" unfolding shortestTo_def by blast
      with run show ?thesis by blast
    next
      case False
      obtain v' q' where vo: "visitOut (Out cg cur) v q0 = (v', q')" by fastforce
      from inv Cons have inv': "loopInv cg r target v (cur # q0)" by simp
      then have mid: "midInv cg r target cur v q0" by (rule loopInv_midInv)
      from inv' have "tracked cg r v" "cur \<in> dom v" by (auto simp: loopInv_def)
      then have "(r, cur) \<in> (calls cg)\<^sup>*" by (rule tracked_reach)
      with own have owned: "\<forall>e\<in>set (Out cg cur). Caller e = cur" by blast
      from visitOut_midInv[OF fin mid subset_refl owned vo]
      have mid': "midInv cg r target cur v' q'" and sub: "dom v \<subseteq> dom v'"
        and out: "\<forall>e\<in>set (Out cg cur). Callee e \<in> dom v'"
        and card: "card ((calls cg)\<^sup>* `` {r} - dom v') + length q'
                    = card ((calls cg)\<^sup>* `` {r} - dom v) + length q0"
        by blast+
      from inv' sub have "r \<in> dom v'" by (auto simp: loopInv_def)
      with mid' out False have inv'': "loopInv cg r target v' q'" by (intro midInv_loopInv)
      from card less.prems(2) Cons
      have "card ((calls cg)\<^sup>* `` {r} - dom v') + length q' < m" by simp
      from less.IH[OF this inv'' refl]
      have "(\<exists>p. bfsLoop cg target v' q' = Some (Some p) \<and> shortestTo cg r target p) \<or>
            (bfsLoop cg target v' q' = Some None \<and>
             (\<forall>x. (r, x) \<in> (calls cg)\<^sup>* \<longrightarrow> Func cg x \<noteq> target))" .
      moreover have "bfsLoop cg target v q = bfsLoop cg target v' q'"
        using Cons False vo by (subst bfsLoop.simps) simp
      ultimately show ?thesis by simp
    qed
  qed
qed

lemma loopInv_init: "loopInv cg r target [r \<mapsto> None] [r]"
proof -
  have "backPath [r \<mapsto> None] r []" by (rule backPath.atStart) simp
  moreover have "hops cg r r = 0"
    using hops_le[where r = r and n = r and cg = cg and k = 0] by simp
  ultimately have "tracked cg r [r \<mapsto> None]" unfolding tracked_def by auto
  then show ?thesis unfolding loopInv_def by auto
qed

lemma callPath_reach:
  assumes "callPath cg r p x"
  shows "(r, x) \<in> (calls cg)\<^sup>*"
proof -
  from assms have "(r, x) \<in> calls cg ^^ length p" by (rule callPath_relpow)
  then show ?thesis by (rule relpow_imp_rtrancl)
qed

lemma wellFormed_closed:
  assumes wf: "wellFormed cg" and r: "r \<in> ran (Nodes cg)"
  shows "(r, n) \<in> (calls cg)\<^sup>* \<Longrightarrow> n \<in> ran (Nodes cg)"
proof (induction rule: rtrancl_induct)
  case base
  from r show ?case .
next
  case (step y z)
  from step.hyps(2) obtain e where "e \<in> set (Out cg y)" "Callee e = z"
    by (auto simp: calls_def)
  with wf step.IH show ?case unfolding wellFormed_def by blast
qed

lemma wellFormed_finite:
  assumes wf: "wellFormed cg" and r: "r \<in> ran (Nodes cg)"
  shows "finite ((calls cg)\<^sup>* `` {r})"
proof -
  from wf have "finite (ran (Nodes cg))" unfolding wellFormed_def by (simp add: finite_ran)
  moreover have "(calls cg)\<^sup>* `` {r} \<subseteq> ran (Nodes cg)"
    using wellFormed_closed[OF wf r] by auto
  ultimately show ?thesis by (rule rev_finite_subset)
qed

lemma wellFormed_owned:
  assumes wf: "wellFormed cg" and r: "r \<in> ran (Nodes cg)"
  shows "\<forall>n. (r, n) \<in> (calls cg)\<^sup>* \<longrightarrow> (\<forall>e\<in>set (Out cg n). Caller e = n)"
  using wellFormed_closed[OF wf r] wf unfolding wellFormed_def by blast

lemma bfs_correct:
  assumes wf: "wellFormed cg" and root: "Nodes cg root = Some r"
  shows "(\<exists>p. bfs cg root target = Some (Inr (Some p)) \<and> shortestTo cg r target p) \<or>
         (bfs cg root target = Some (Inr None) \<and> \<not> reaches cg root target)"
proof -
  from root have r: "r \<in> ran (Nodes cg)" by (auto simp: ran_def)
  note total = bfsLoop_total[OF wellFormed_finite[OF wf r] wellFormed_owned[OF wf r]
      loopInv_init refl, of target]
  from total show ?thesis
  proof
    assume "\<exists>p. bfsLoop cg target [r \<mapsto> None] [r] = Some (Some p) \<and> shortestTo cg r target p"
    then show ?thesis using root by (auto simp: bfs_def)
  next
    assume none: "bfsLoop cg target [r \<mapsto> None] [r] = Some None \<and>
      (\<forall>x. (r, x) \<in> (calls cg)\<^sup>* \<longrightarrow> Func cg x \<noteq> target)"
    then have "bfs cg root target = Some (Inr None)" using root by (simp add: bfs_def)
    moreover from none root have "\<not> reaches cg root target" by (auto simp: reaches_def)
    ultimately show ?thesis by blast
  qed
qed

lemma shortestTo_reaches:
  assumes "Nodes cg root = Some r" "shortestTo cg r target p"
  shows "reaches cg root target"
proof -
  from assms(2) obtain x where x: "callPath cg r p x" "Func cg x = target"
    unfolding shortestTo_def by blast
  from x(1) have "(r, x) \<in> (calls cg)\<^sup>*" by (rule callPath_reach)
  with assms(1) x(2) show ?thesis unfolding reaches_def by blast
qed

lemma bfs_reaches:
  assumes "wellFormed cg" "Nodes cg root = Some r" "reaches cg root target"
  shows "\<exists>p. bfs cg root target = Some (Inr (Some p)) \<and> shortestTo cg r target p"
  using bfs_correct[OF assms(1,2), of target] assms(3) by blast

lemma bfs_unreachable:
  assumes "wellFormed cg" "Nodes cg root = Some r" "\<not> reaches cg root target"
  shows "bfs cg root target = Some (Inr None)"
proof -
  from bfs_correct[OF assms(1,2), of target] show ?thesis
  proof
    assume "\<exists>p. bfs cg root target = Some (Inr (Some p)) \<and> shortestTo cg r target p"
    then obtain p where "shortestTo cg r target p" by blast
    with assms(2) have "reaches cg root target" by (rule shortestTo_reaches)
    with assms(3) show ?thesis by simp
  next
    assume "bfs cg root target = Some (Inr None) \<and> \<not> reaches cg root target"
    then show ?thesis by simp
  qed
qed

lemma bfs_nil_iff:
  assumes "wellFormed cg" "Nodes cg root = Some r"
  shows "bfs cg root target = Some (Inr None) \<longleftrightarrow> \<not> reaches cg root target"
proof
  assume nil: "bfs cg root target = Some (Inr None)"
  show "\<not> reaches cg root target"
  proof
    assume "reaches cg root target"
    from bfs_reaches[OF assms this] nil show False by simp
  qed
next
  assume "\<not> reaches cg root target"
  with assms show "bfs cg root target = Some (Inr None)" by (rule bfs_unreachable)
qed

lemma findPathFrom_skip:
  "\<forall>x\<in>set pre. bfs cg x target = Some (Inr None)
     \<Longrightarrow> findPathFrom cg (pre @ rs) target = findPathFrom cg rs target"
  by (induction pre) auto

lemma findPathFrom_found:
  "bfs cg root target = Some (Inr (Some p))
     \<Longrightarrow> findPathFrom cg (root # rs) target = Some (Inr (Some p))"
  by simp

lemma bfs_self:
  assumes "Nodes cg start = Some r" "Func cg r = target"
  shows "bfs cg start target = Some (Inr (Some []))"
proof -
  have "traverseBack [r \<mapsto> None] r [] = Some []"
    by (subst traverseBack.simps) simp
  with assms(2) have "bfsLoop cg target [r \<mapsto> None] [r] = Some (Some [])"
    by (subst bfsLoop.simps) simp
  with assms(1) show ?thesis by (simp add: bfs_def)
qed

section \<open>The path finder: claims\<close>

lemma ran_diamond: "n \<in> ran (Nodes diamond) \<Longrightarrow> n \<in> {0, 1, 2, 3}"
proof -
  assume "n \<in> ran (Nodes diamond)"
  then obtain a where "Nodes diamond a = Some n" by (auto simp: ran_def)
  then show ?thesis by (simp add: diamond_def split: if_splits)
qed

lemma wellFormed_diamond: "wellFormed diamond"
  unfolding wellFormed_def
proof (intro conjI ballI)
  show "finite (dom (Nodes diamond))" by (simp add: diamond_def)
next
  fix n e assume n: "n \<in> ran (Nodes diamond)" and e: "e \<in> set (Out diamond n)"
  have "Nodes diamond ''root'' = Some 0" "Nodes diamond ''a'' = Some 1" "Nodes diamond ''b'' = Some 2"
    "Nodes diamond ''target'' = Some 3" by (simp_all add: diamond_def)
  then have r: "0 \<in> ran (Nodes diamond)" "1 \<in> ran (Nodes diamond)" "2 \<in> ran (Nodes diamond)"
    "3 \<in> ran (Nodes diamond)" by (auto intro: ranI)
  from ran_diamond[OF n] e have "Caller e = n \<and> Callee e \<in> {0, 1, 2, 3}"
    by (auto simp: diamond_def call_def)
  with r show "Caller e = n" "Callee e \<in> ran (Nodes diamond)" by auto
qed

lemma ran_twoRoots: "n \<in> ran (Nodes twoRoots) \<Longrightarrow> n \<in> {0, 1, 2, 3}"
proof -
  assume "n \<in> ran (Nodes twoRoots)"
  then obtain a where "Nodes twoRoots a = Some n" by (auto simp: ran_def)
  then show ?thesis by (simp add: twoRoots_def split: if_splits)
qed

lemma wellFormed_twoRoots: "wellFormed twoRoots"
  unfolding wellFormed_def
proof (intro conjI ballI)
  show "finite (dom (Nodes twoRoots))" by (simp add: twoRoots_def)
next
  fix n e assume n: "n \<in> ran (Nodes twoRoots)" and e: "e \<in> set (Out twoRoots n)"
  have "Nodes twoRoots ''init'' = Some 0" "Nodes twoRoots ''main'' = Some 1" "Nodes twoRoots ''a'' = Some 2"
    "Nodes twoRoots ''target'' = Some 3" by (simp_all add: twoRoots_def)
  then have r: "0 \<in> ran (Nodes twoRoots)" "1 \<in> ran (Nodes twoRoots)" "2 \<in> ran (Nodes twoRoots)"
    "3 \<in> ran (Nodes twoRoots)" by (auto intro: ranI)
  from ran_twoRoots[OF n] e have "Caller e = n \<and> Callee e \<in> {0, 1, 2, 3}"
    by (auto simp: twoRoots_def call_def)
  with r show "Caller e = n" "Callee e \<in> ran (Nodes twoRoots)" by auto
qed

lemma reaches_diamond: "reaches diamond ''root'' ''target''"
proof -
  have "call 0 3 \<in> set (Out diamond 0)" by (simp add: diamond_def)
  then have "(0, Callee (call 0 3)) \<in> calls diamond" unfolding calls_def by blast
  then have "(0, 3) \<in> calls diamond" by (simp add: call_def)
  then have "(0, 3) \<in> (calls diamond)\<^sup>*" by (rule r_into_rtrancl)
  moreover have "Nodes diamond ''root'' = Some 0" "Func diamond 3 = ''target''"
    by (simp_all add: diamond_def)
  ultimately show ?thesis unfolding reaches_def by blast
qed

lemma findPath_first_reaching:
  assumes wf: "wellFormed (callgraph g)"
    and present: "\<forall>root\<in>set (roots g). Nodes (callgraph g) root \<noteq> None"
    and reach: "\<exists>root\<in>set (roots g). reaches (callgraph g) root target"
  shows "\<exists>pre root post r p.
           roots g = pre @ root # post \<and>
           (\<forall>x\<in>set pre. \<not> reaches (callgraph g) x target) \<and>
           Nodes (callgraph g) root = Some r \<and>
           findPath g target = Some (Inr (Some p)) \<and>
           shortestTo (callgraph g) r target p"
proof -
  let ?cg = "callgraph g"
  from split_list_first_prop[OF reach] obtain pre root post where
    split: "roots g = pre @ root # post" and hit: "reaches ?cg root target"
    and miss: "\<forall>x\<in>set pre. \<not> reaches ?cg x target" by blast
  from hit obtain r where r: "Nodes ?cg root = Some r" unfolding reaches_def by blast
  from bfs_reaches[OF wf r hit] obtain p where
    p: "bfs ?cg root target = Some (Inr (Some p))" "shortestTo ?cg r target p" by blast
  have "\<forall>x\<in>set pre. bfs ?cg x target = Some (Inr None)"
  proof
    fix x assume x: "x \<in> set pre"
    with split present obtain n where "Nodes ?cg x = Some n" by auto
    from bfs_unreachable[OF wf this] miss x show "bfs ?cg x target = Some (Inr None)" by blast
  qed
  then have "findPathFrom ?cg (pre @ root # post) target = findPathFrom ?cg (root # post) target"
    by (rule findPathFrom_skip)
  with p(1) split have "findPath g target = Some (Inr (Some p))"
    by (simp add: findPath_def)
  with split miss r p(2) show ?thesis by blast
qed

text \<open>
  C1 (as amended). In a well-formed call graph in which every root has a node, if the
  target is reachable from some root, then \<open>findPath\<close> returns a path: an ordered
  sequence of call edges that starts at the node of the first root, in root order,
  that reaches the target, and ends at a node of the target; and no path from that
  root to the target is shorter. Roots that come later in the order are not
  compared. For the graph \<open>root -> a -> b -> target\<close> with the direct edge
  \<open>root -> target\<close> the result is the path of that one edge.
\<close>

theorem findPath_shortest:
  assumes "wellFormed (callgraph g)"
    and "\<forall>root\<in>set (roots g). Nodes (callgraph g) root \<noteq> None"
    and "\<exists>root\<in>set (roots g). reaches (callgraph g) root target"
  shows "\<exists>pre root post r p.
           roots g = pre @ root # post \<and>
           (\<forall>x\<in>set pre. \<not> reaches (callgraph g) x target) \<and>
           Nodes (callgraph g) root = Some r \<and>
           findPath g target = Some (Inr (Some p)) \<and>
           shortestTo (callgraph g) r target p"
  using assms by (rule findPath_first_reaching)

lemma findPath_diamond: "findPath diamondGraph ''target'' = Some (Inr (Some [call 0 3]))"
  by (simp add: findPath_def diamondGraph_def diamond_def bfs_def bfsLoop.simps
      traverseBack.simps call_def)

theorem findPath_shortest_witness:
  "wellFormed (callgraph diamondGraph) \<and>
   roots diamondGraph = [''root''] \<and>
   Nodes (callgraph diamondGraph) ''root'' \<noteq> None \<and>
   reaches (callgraph diamondGraph) ''root'' ''target'' \<and>
   findPath diamondGraph ''target'' = Some (Inr (Some [call 0 3])) \<and>
   shortestTo diamond 0 ''target'' [call 0 3] \<and>
   callPath diamond 0 [call 0 1, call 1 2, call 2 3] 3"
proof -
  have cg: "callgraph diamondGraph = diamond" and rs: "roots diamondGraph = [''root'']"
    by (simp_all add: diamondGraph_def)
  have wf: "wellFormed (callgraph diamondGraph)" using wellFormed_diamond by (simp add: cg)
  have present: "\<forall>root\<in>set (roots diamondGraph). Nodes (callgraph diamondGraph) root \<noteq> None"
    by (simp add: cg rs diamond_def)
  have reach: "\<exists>root\<in>set (roots diamondGraph). reaches (callgraph diamondGraph) root ''target''"
    using reaches_diamond by (simp add: cg rs)
  from findPath_shortest[OF wf present reach] obtain pre root post r p where
    split: "roots diamondGraph = pre @ root # post"
    and r: "Nodes (callgraph diamondGraph) root = Some r"
    and p: "findPath diamondGraph ''target'' = Some (Inr (Some p))"
    and sh: "shortestTo (callgraph diamondGraph) r ''target'' p" by blast
  from split rs have "root = ''root''" by (cases pre) auto
  with r have "r = 0" by (simp add: cg diamond_def)
  moreover from p findPath_diamond have "p = [call 0 3]" by simp
  ultimately have "shortestTo diamond 0 ''target'' [call 0 3]" using sh by (simp add: cg)
  moreover have "callPath diamond 0 [call 0 1, call 1 2, call 2 3] 3"
    by (simp add: diamond_def call_def)
  moreover have "Nodes (callgraph diamondGraph) ''root'' \<noteq> None"
    by (simp add: cg diamond_def)
  moreover have "reaches (callgraph diamondGraph) ''root'' ''target''"
    using reaches_diamond by (simp add: cg)
  ultimately show ?thesis using wf rs findPath_diamond by simp
qed

lemma findPath_twoRoots_target:
  "findPath twoRootsGraph ''target'' = Some (Inr (Some [call 0 2, call 2 3]))"
  by (simp add: findPath_def twoRootsGraph_def twoRoots_def bfs_def bfsLoop.simps
      traverseBack.simps call_def)

theorem findPath_all_roots_counterexample:
  "findPath twoRootsGraph ''target'' = Some (Inr (Some [call 0 2, call 2 3])) \<and>
   ''main'' \<in> set (roots twoRootsGraph) \<and>
   Nodes (callgraph twoRootsGraph) ''main'' = Some 1 \<and>
   callPath (callgraph twoRootsGraph) 1 [call 1 3] 3 \<and>
   Func (callgraph twoRootsGraph) 3 = ''target'' \<and>
   length [call 1 3] < length [call 0 2, call 2 3]"
proof -
  have "''main'' \<in> set (roots twoRootsGraph)" by (simp add: twoRootsGraph_def)
  moreover have "Nodes (callgraph twoRootsGraph) ''main'' = Some 1"
    by (simp add: twoRootsGraph_def twoRoots_def)
  moreover have "callPath (callgraph twoRootsGraph) 1 [call 1 3] 3"
    by (simp add: twoRootsGraph_def twoRoots_def call_def)
  moreover have "Func (callgraph twoRootsGraph) 3 = ''target''"
    by (simp add: twoRootsGraph_def twoRoots_def)
  ultimately show ?thesis using findPath_twoRoots_target by simp
qed

lemma ran_apart: "n \<in> ran (Nodes apart) \<Longrightarrow> n \<in> {0, 1, 2, 3}"
proof -
  assume "n \<in> ran (Nodes apart)"
  then obtain a where "Nodes apart a = Some n" by (auto simp: ran_def)
  then show ?thesis by (simp add: apart_def split: if_splits)
qed

lemma wellFormed_apart: "wellFormed apart"
  unfolding wellFormed_def
proof (intro conjI ballI)
  show "finite (dom (Nodes apart))" by (simp add: apart_def)
next
  fix n e assume n: "n \<in> ran (Nodes apart)" and e: "e \<in> set (Out apart n)"
  have "Nodes apart ''init'' = Some 0" "Nodes apart ''main'' = Some 1" "Nodes apart ''a'' = Some 2"
    "Nodes apart ''target'' = Some 3" by (simp_all add: apart_def)
  then have r: "0 \<in> ran (Nodes apart)" "1 \<in> ran (Nodes apart)" "2 \<in> ran (Nodes apart)"
    "3 \<in> ran (Nodes apart)" by (auto intro: ranI)
  from ran_apart[OF n] e have "Caller e = n \<and> Callee e \<in> {0, 1, 2, 3}"
    by (auto simp: apart_def call_def split: if_splits)
  with r show "Caller e = n" "Callee e \<in> ran (Nodes apart)" by auto
qed

lemma findPath_nil_iff:
  assumes wf: "wellFormed (callgraph g)"
    and present: "\<forall>root\<in>set (roots g). Nodes (callgraph g) root \<noteq> None"
  shows "findPath g target = Some (Inr None) \<longleftrightarrow>
         (\<forall>root\<in>set (roots g). \<not> reaches (callgraph g) root target)"
proof
  assume nil: "findPath g target = Some (Inr None)"
  show "\<forall>root\<in>set (roots g). \<not> reaches (callgraph g) root target"
  proof (rule ccontr)
    assume "\<not> (\<forall>root\<in>set (roots g). \<not> reaches (callgraph g) root target)"
    then have "\<exists>root\<in>set (roots g). reaches (callgraph g) root target" by blast
    from findPath_first_reaching[OF wf present this] nil show False by auto
  qed
next
  assume miss: "\<forall>root\<in>set (roots g). \<not> reaches (callgraph g) root target"
  have "\<forall>x\<in>set (roots g). bfs (callgraph g) x target = Some (Inr None)"
  proof
    fix x assume x: "x \<in> set (roots g)"
    with present obtain n where "Nodes (callgraph g) x = Some n" by auto
    from bfs_unreachable[OF wf this] miss x show "bfs (callgraph g) x target = Some (Inr None)"
      by blast
  qed
  from findPathFrom_skip[OF this, of "[]"] show "findPath g target = Some (Inr None)"
    by (simp add: findPath_def)
qed

lemma findPath_first_non_nil:
  assumes "roots g = pre @ root # post"
    and "\<forall>x\<in>set pre. bfs (callgraph g) x target = Some (Inr None)"
    and "bfs (callgraph g) root target = Some (Inr (Some p))"
  shows "findPath g target = Some (Inr (Some p))"
proof -
  from assms(2) have "findPathFrom (callgraph g) (pre @ root # post) target
      = findPathFrom (callgraph g) (root # post) target" by (rule findPathFrom_skip)
  with assms(1,3) show ?thesis by (simp add: findPath_def)
qed

text \<open>
  C5 (as amended). In a well-formed call graph in which every root has a node,
  \<open>findPath\<close> returns; it returns nil if and only if the target is reachable from no
  root; and the path of the first root, in root order, for which \<open>bfs\<close> yields a
  non-nil path is the one returned, also when that path has no edge.
\<close>

theorem findPath_nil_iff_unreachable:
  assumes wf: "wellFormed (callgraph g)"
    and present: "\<forall>root\<in>set (roots g). Nodes (callgraph g) root \<noteq> None"
  shows "(\<exists>res. findPath g target = Some (Inr res)) \<and>
         (findPath g target = Some (Inr None) \<longleftrightarrow>
            (\<forall>root\<in>set (roots g). \<not> reaches (callgraph g) root target)) \<and>
         (\<forall>pre root post p.
            roots g = pre @ root # post \<and>
            (\<forall>x\<in>set pre. bfs (callgraph g) x target = Some (Inr None)) \<and>
            bfs (callgraph g) root target = Some (Inr (Some p))
            \<longrightarrow> findPath g target = Some (Inr (Some p)))"
proof (intro conjI)
  show "\<exists>res. findPath g target = Some (Inr res)"
  proof (cases "\<exists>root\<in>set (roots g). reaches (callgraph g) root target")
    case True
    from findPath_first_reaching[OF wf present True] show ?thesis by blast
  next
    case False
    with findPath_nil_iff[OF wf present, of target] show ?thesis by blast
  qed
  show "findPath g target = Some (Inr None) \<longleftrightarrow>
          (\<forall>root\<in>set (roots g). \<not> reaches (callgraph g) root target)"
    using wf present by (rule findPath_nil_iff)
  show "\<forall>pre root post p.
            roots g = pre @ root # post \<and>
            (\<forall>x\<in>set pre. bfs (callgraph g) x target = Some (Inr None)) \<and>
            bfs (callgraph g) root target = Some (Inr (Some p))
            \<longrightarrow> findPath g target = Some (Inr (Some p))"
  proof (intro allI impI)
    fix pre root post p
    assume h: "roots g = pre @ root # post \<and>
            (\<forall>x\<in>set pre. bfs (callgraph g) x target = Some (Inr None)) \<and>
            bfs (callgraph g) root target = Some (Inr (Some p))"
    then have "roots g = pre @ root # post"
      "\<forall>x\<in>set pre. bfs (callgraph g) x target = Some (Inr None)"
      "bfs (callgraph g) root target = Some (Inr (Some p))" by simp_all
    then show "findPath g target = Some (Inr (Some p))" by (rule findPath_first_non_nil)
  qed
qed

lemma bfs_apart_init_target: "bfs apart ''init'' ''target'' = Some (Inr None)"
  by (simp add: apart_def bfs_def bfsLoop.simps traverseBack.simps call_def)

lemma bfs_apart_main_target: "bfs apart ''main'' ''target'' = Some (Inr (Some [call 1 3]))"
  by (simp add: apart_def bfs_def bfsLoop.simps traverseBack.simps call_def)

lemma bfs_apart_init_main: "bfs apart ''init'' ''main'' = Some (Inr None)"
  by (simp add: apart_def bfs_def bfsLoop.simps traverseBack.simps call_def)

lemma apartGraph_simps:
  "callgraph apartGraph = apart" "roots apartGraph = [''init'', ''main'']"
  by (simp_all add: apartGraph_def)

lemma present_apart: "\<forall>root\<in>set (roots apartGraph). Nodes (callgraph apartGraph) root \<noteq> None"
  by (simp add: apartGraph_simps apart_def)

theorem findPath_nil_iff_unreachable_witness:
  "wellFormed (callgraph apartGraph) \<and>
   roots apartGraph = [''init''] @ ''main'' # [] \<and>
   Nodes (callgraph apartGraph) ''init'' \<noteq> None \<and>
   Nodes (callgraph apartGraph) ''main'' \<noteq> None \<and>
   bfs (callgraph apartGraph) ''init'' ''target'' = Some (Inr None) \<and>
   bfs (callgraph apartGraph) ''main'' ''target'' = Some (Inr (Some [call 1 3])) \<and>
   findPath apartGraph ''target'' = Some (Inr (Some [call 1 3])) \<and>
   (\<exists>root\<in>set (roots apartGraph). reaches (callgraph apartGraph) root ''target'')"
proof -
  have wf: "wellFormed (callgraph apartGraph)"
    using wellFormed_apart by (simp add: apartGraph_simps)
  note inst = findPath_nil_iff_unreachable[OF wf present_apart, of "''target''"]
  have split: "roots apartGraph = [''init''] @ ''main'' # []" by (simp add: apartGraph_simps)
  have b1: "\<forall>x\<in>set [''init'']. bfs (callgraph apartGraph) x ''target'' = Some (Inr None)"
    using bfs_apart_init_target by (simp add: apartGraph_simps)
  have b2: "bfs (callgraph apartGraph) ''main'' ''target'' = Some (Inr (Some [call 1 3]))"
    using bfs_apart_main_target by (simp add: apartGraph_simps)
  from inst split b1 b2 have found: "findPath apartGraph ''target'' = Some (Inr (Some [call 1 3]))"
    by blast
  with inst have "\<exists>root\<in>set (roots apartGraph). reaches (callgraph apartGraph) root ''target''"
    by auto
  moreover have "Nodes (callgraph apartGraph) ''init'' \<noteq> None"
    "Nodes (callgraph apartGraph) ''main'' \<noteq> None"
    by (simp_all add: apartGraph_simps apart_def)
  moreover have "bfs (callgraph apartGraph) ''init'' ''target'' = Some (Inr None)"
    using bfs_apart_init_target by (simp add: apartGraph_simps)
  ultimately show ?thesis using wf split b2 found by simp
qed

lemma mainFirstGraph_simps:
  "callgraph mainFirstGraph = twoRoots" "roots mainFirstGraph = [''main'', ''init'']"
  by (simp_all add: mainFirstGraph_def twoRootsGraph_def)

lemma bfs_twoRoots_main_main: "bfs twoRoots ''main'' ''main'' = Some (Inr (Some []))"
  by (simp add: twoRoots_def bfs_def bfsLoop.simps traverseBack.simps call_def)

lemma bfs_twoRoots_init_main: "bfs twoRoots ''init'' ''main'' = Some (Inr (Some [call 0 1]))"
  by (simp add: twoRoots_def bfs_def bfsLoop.simps traverseBack.simps call_def)

theorem findPath_first_non_empty_counterexample:
  "roots mainFirstGraph = [''main'', ''init''] \<and>
   bfs (callgraph mainFirstGraph) ''main'' ''main'' = Some (Inr (Some [])) \<and>
   bfs (callgraph mainFirstGraph) ''init'' ''main'' = Some (Inr (Some [call 0 1])) \<and>
   [call 0 1] \<noteq> [] \<and>
   findPath mainFirstGraph ''main'' = Some (Inr (Some [])) \<and>
   findPath mainFirstGraph ''main'' \<noteq> bfs (callgraph mainFirstGraph) ''init'' ''main''"
proof -
  have "findPath mainFirstGraph ''main'' = Some (Inr (Some []))"
    using bfs_twoRoots_main_main by (simp add: findPath_def mainFirstGraph_simps)
  then show ?thesis
    using bfs_twoRoots_main_main bfs_twoRoots_init_main by (simp add: mainFirstGraph_simps)
qed

lemma findPathFrom_first_reaching:
  assumes wf: "wellFormed cg"
    and present: "\<forall>y\<in>set before. Nodes cg y \<noteq> None"
    and miss: "\<forall>y\<in>set before. \<not> reaches cg y target"
    and hit: "reaches cg x target"
  shows "\<exists>r p. Nodes cg x = Some r \<and>
           findPathFrom cg (before @ x # rest) target = Some (Inr (Some p)) \<and>
           shortestTo cg r target p"
proof -
  from hit obtain r where r: "Nodes cg x = Some r" unfolding reaches_def by blast
  from bfs_reaches[OF wf r hit] obtain p where
    p: "bfs cg x target = Some (Inr (Some p))" "shortestTo cg r target p" by blast
  have "\<forall>y\<in>set before. bfs cg y target = Some (Inr None)"
  proof
    fix y assume y: "y \<in> set before"
    with present obtain n where "Nodes cg y = Some n" by auto
    from bfs_unreachable[OF wf this] miss y show "bfs cg y target = Some (Inr None)" by blast
  qed
  then have "findPathFrom cg (before @ x # rest) target = findPathFrom cg (x # rest) target"
    by (rule findPathFrom_skip)
  with p(1) have "findPathFrom cg (before @ x # rest) target = Some (Inr (Some p))" by simp
  with r p(2) show ?thesis by blast
qed

lemma shortestTo_edges:
  assumes "shortestTo cg r target p" "Func cg r \<noteq> target"
  shows "p \<noteq> []"
proof
  assume "p = []"
  with assms(1) obtain x where "callPath cg r [] x" "Func cg x = target"
    unfolding shortestTo_def by blast
  with assms(2) show False by simp
qed

text \<open>
  C10 (as amended). Let the call graph be well-formed and the target be one of the
  roots, with a node that carries it, and let every root before it have a node. Then
  \<open>bfs\<close> from the target returns a non-nil path without edges, and \<open>printPath\<close> prints
  nothing for such a path. If no root before the target reaches it, \<open>findPath\<close>
  returns that path, and so does \<open>whyReachable\<close> for a name that \<open>findFunc\<close> resolves
  to the target, the graph being the one after \<open>DeleteSyntheticNodes\<close>; later roots
  are not tried. If a root before the target reaches it, \<open>findPath\<close> returns instead
  a shortest path from the first such root, which has an edge unless the node of that
  root carries the target as well.
\<close>

theorem findPath_target_is_root:
  assumes wf: "wellFormed (callgraph g)"
    and split: "roots g = pre @ target # post"
    and present: "\<forall>x\<in>set pre. Nodes (callgraph g) x \<noteq> None"
    and node: "Nodes (callgraph g) target = Some r"
    and func: "Func (callgraph g) r = target"
  shows "bfs (callgraph g) target target = Some (Inr (Some [])) \<and>
         printPath g [] = [] \<and>
         ((\<forall>x\<in>set pre. \<not> reaches (callgraph g) x target) \<longrightarrow>
            findPath g target = Some (Inr (Some [])) \<and>
            (\<forall>dsn g0 keys fname.
               findFunc g0 keys fname = Some target \<and> g0\<lparr>callgraph := dsn (callgraph g0)\<rparr> = g
               \<longrightarrow> whyReachable dsn g0 keys fname = Some (Inr (Some [], g)))) \<and>
         ((\<exists>x\<in>set pre. reaches (callgraph g) x target) \<longrightarrow>
            (\<exists>before x after r' p.
               pre = before @ x # after \<and>
               (\<forall>y\<in>set before. \<not> reaches (callgraph g) y target) \<and>
               Nodes (callgraph g) x = Some r' \<and>
               findPath g target = Some (Inr (Some p)) \<and>
               shortestTo (callgraph g) r' target p \<and>
               (Func (callgraph g) r' \<noteq> target \<longrightarrow> p \<noteq> [])))"
proof -
  have self: "bfs (callgraph g) target target = Some (Inr (Some []))"
    using node func by (rule bfs_self)
  have pp: "printPath g [] = []" by (simp add: printPath_def)
  have first: "findPath g target = Some (Inr (Some [])) \<and>
            (\<forall>dsn g0 keys fname.
               findFunc g0 keys fname = Some target \<and> g0\<lparr>callgraph := dsn (callgraph g0)\<rparr> = g
               \<longrightarrow> whyReachable dsn g0 keys fname = Some (Inr (Some [], g)))"
    if miss: "\<forall>x\<in>set pre. \<not> reaches (callgraph g) x target"
  proof -
    have allnil: "\<forall>x\<in>set pre. bfs (callgraph g) x target = Some (Inr None)"
    proof
      fix x assume x: "x \<in> set pre"
      with present obtain n where n: "Nodes (callgraph g) x = Some n" by auto
      from miss x have "\<not> reaches (callgraph g) x target" by simp
      with wf n show "bfs (callgraph g) x target = Some (Inr None)" by (rule bfs_unreachable)
    qed
    from split allnil self have fp: "findPath g target = Some (Inr (Some []))"
      by (rule findPath_first_non_nil)
    have "whyReachable dsn g0 keys fname = Some (Inr (Some [], g))"
      if "findFunc g0 keys fname = Some target" "g0\<lparr>callgraph := dsn (callgraph g0)\<rparr> = g"
      for dsn g0 keys fname
      using that fp by (simp add: whyReachable_def)
    with fp show ?thesis by simp
  qed
  have second: "\<exists>before x after r' p.
               pre = before @ x # after \<and>
               (\<forall>y\<in>set before. \<not> reaches (callgraph g) y target) \<and>
               Nodes (callgraph g) x = Some r' \<and>
               findPath g target = Some (Inr (Some p)) \<and>
               shortestTo (callgraph g) r' target p \<and>
               (Func (callgraph g) r' \<noteq> target \<longrightarrow> p \<noteq> [])"
    if ex: "\<exists>x\<in>set pre. reaches (callgraph g) x target"
  proof -
    from split_list_first_prop[OF ex] obtain before x after where
      pre: "pre = before @ x # after" and hit: "reaches (callgraph g) x target"
      and miss: "\<forall>y\<in>set before. \<not> reaches (callgraph g) y target" by blast
    from present pre have pb: "\<forall>y\<in>set before. Nodes (callgraph g) y \<noteq> None" by simp
    from findPathFrom_first_reaching[OF wf pb miss hit, of "after @ target # post"]
    obtain r' p where r': "Nodes (callgraph g) x = Some r'"
      and fp: "findPathFrom (callgraph g) (before @ x # after @ target # post) target
                 = Some (Inr (Some p))"
      and sh: "shortestTo (callgraph g) r' target p" by blast
    have "roots g = before @ x # after @ target # post" unfolding split pre by simp
    then have "findPath g target
        = findPathFrom (callgraph g) (before @ x # after @ target # post) target"
      unfolding findPath_def by (rule arg_cong)
    from this fp have fp': "findPath g target = Some (Inr (Some p))" by (rule trans)
    have edges: "Func (callgraph g) r' \<noteq> target \<longrightarrow> p \<noteq> []"
    proof
      assume "Func (callgraph g) r' \<noteq> target"
      with sh show "p \<noteq> []" by (rule shortestTo_edges)
    qed
    show ?thesis
      by (intro exI[of _ before] exI[of _ x] exI[of _ after] exI[of _ r'] exI[of _ p] conjI)
        (fact pre miss r' fp' sh edges)+
  qed
  have f1: "(\<forall>x\<in>set pre. \<not> reaches (callgraph g) x target) \<longrightarrow>
            findPath g target = Some (Inr (Some [])) \<and>
            (\<forall>dsn g0 keys fname.
               findFunc g0 keys fname = Some target \<and> g0\<lparr>callgraph := dsn (callgraph g0)\<rparr> = g
               \<longrightarrow> whyReachable dsn g0 keys fname = Some (Inr (Some [], g)))"
    by (intro impI first)
  have f2: "(\<exists>x\<in>set pre. reaches (callgraph g) x target) \<longrightarrow>
            (\<exists>before x after r' p.
               pre = before @ x # after \<and>
               (\<forall>y\<in>set before. \<not> reaches (callgraph g) y target) \<and>
               Nodes (callgraph g) x = Some r' \<and>
               findPath g target = Some (Inr (Some p)) \<and>
               shortestTo (callgraph g) r' target p \<and>
               (Func (callgraph g) r' \<noteq> target \<longrightarrow> p \<noteq> []))"
    by (intro impI second)
  from self pp f1 f2 show ?thesis by (intro conjI)
qed

lemma reaches_apart_init_main: "\<not> reaches apart ''init'' ''main''"
proof -
  have "Nodes apart ''init'' = Some 0" by (simp add: apart_def)
  from bfs_nil_iff[OF wellFormed_apart this, of "''main''"] bfs_apart_init_main
  show ?thesis by simp
qed

lemma ran_twoRoots_node: "Nodes twoRoots ''main'' = Some 1" "Func twoRoots 1 = ''main''"
  "Nodes twoRoots ''init'' = Some 0" "Func twoRoots 0 = ''init''"
  by (simp_all add: twoRoots_def)

lemma reaches_twoRoots_init_main: "reaches twoRoots ''init'' ''main''"
proof -
  have "call 0 1 \<in> set (Out twoRoots 0)" by (simp add: twoRoots_def)
  then have "(0, Callee (call 0 1)) \<in> calls twoRoots" unfolding calls_def by blast
  then have "(0, 1) \<in> (calls twoRoots)\<^sup>*" by (simp add: call_def)
  with ran_twoRoots_node show ?thesis unfolding reaches_def by blast
qed

lemma findPath_twoRoots_main: "findPath twoRootsGraph ''main'' = Some (Inr (Some [call 0 1]))"
  by (simp add: findPath_def twoRootsGraph_def twoRoots_def bfs_def bfsLoop.simps
      traverseBack.simps call_def)

theorem findPath_target_is_root_witness:
  "wellFormed (callgraph apartGraph) \<and>
   roots apartGraph = [''init''] @ ''main'' # [] \<and>
   Nodes (callgraph apartGraph) ''init'' \<noteq> None \<and>
   \<not> reaches (callgraph apartGraph) ''init'' ''main'' \<and>
   Nodes (callgraph apartGraph) ''main'' = Some 1 \<and>
   Func (callgraph apartGraph) 1 = ''main'' \<and>
   findFunc apartGraph [''a'', ''main''] ''main'' = Some ''main'' \<and>
   bfs (callgraph apartGraph) ''main'' ''main'' = Some (Inr (Some [])) \<and>
   findPath apartGraph ''main'' = Some (Inr (Some [])) \<and>
   printPath apartGraph [] = [] \<and>
   whyReachable (\<lambda>cg. cg) apartGraph [''a'', ''main''] ''main'' = Some (Inr (Some [], apartGraph)) \<and>
   wellFormed (callgraph twoRootsGraph) \<and>
   roots twoRootsGraph = [''init''] @ ''main'' # [] \<and>
   Nodes (callgraph twoRootsGraph) ''init'' = Some 0 \<and>
   Nodes (callgraph twoRootsGraph) ''main'' = Some 1 \<and>
   Func (callgraph twoRootsGraph) 1 = ''main'' \<and>
   Func (callgraph twoRootsGraph) 0 \<noteq> ''main'' \<and>
   reaches (callgraph twoRootsGraph) ''init'' ''main'' \<and>
   findPath twoRootsGraph ''main'' = Some (Inr (Some [call 0 1])) \<and>
   shortestTo (callgraph twoRootsGraph) 0 ''main'' [call 0 1]"
proof -
  have wf: "wellFormed (callgraph apartGraph)"
    using wellFormed_apart by (simp add: apartGraph_simps)
  have split: "roots apartGraph = [''init''] @ ''main'' # []" by (simp add: apartGraph_simps)
  have present: "\<forall>x\<in>set [''init'']. Nodes (callgraph apartGraph) x \<noteq> None"
    by (simp add: apartGraph_simps apart_def)
  have miss: "\<forall>x\<in>set [''init'']. \<not> reaches (callgraph apartGraph) x ''main''"
    using reaches_apart_init_main by (simp add: apartGraph_simps)
  have node: "Nodes (callgraph apartGraph) ''main'' = Some 1"
    by (simp add: apartGraph_simps apart_def)
  have func: "Func (callgraph apartGraph) 1 = ''main''"
    by (simp add: apartGraph_simps apart_def)
  have ff: "findFunc apartGraph [''a'', ''main''] ''main'' = Some ''main''"
    by (simp add: findFunc_def apartGraph_def noProgram_def)
  have same: "apartGraph\<lparr>callgraph := (\<lambda>cg. cg) (callgraph apartGraph)\<rparr> = apartGraph"
    by simp
  note inst = findPath_target_is_root[OF wf split present node func]
  from inst have self: "bfs (callgraph apartGraph) ''main'' ''main'' = Some (Inr (Some []))"
    and pp: "printPath apartGraph [] = []" by blast+
  from inst miss have fp: "findPath apartGraph ''main'' = Some (Inr (Some []))"
    and every: "\<forall>dsn g0 keys fname.
      findFunc g0 keys fname = Some ''main'' \<and> g0\<lparr>callgraph := dsn (callgraph g0)\<rparr> = apartGraph
      \<longrightarrow> whyReachable dsn g0 keys fname = Some (Inr (Some [], apartGraph))" by blast+
  from every[rule_format, where dsn = "\<lambda>cg. cg" and ?g0.0 = apartGraph
      and keys = "[''a'', ''main'']" and fname = "''main''"] ff same
  have wr: "whyReachable (\<lambda>cg. cg) apartGraph [''a'', ''main''] ''main''
          = Some (Inr (Some [], apartGraph))" by simp
  have cg: "callgraph twoRootsGraph = twoRoots" "roots twoRootsGraph = [''init'', ''main'']"
    by (simp_all add: twoRootsGraph_def)
  have wf2: "wellFormed (callgraph twoRootsGraph)" using wellFormed_twoRoots by (simp add: cg)
  have split2: "roots twoRootsGraph = [''init''] @ ''main'' # []" by (simp add: cg)
  have present2: "\<forall>x\<in>set [''init'']. Nodes (callgraph twoRootsGraph) x \<noteq> None"
    by (simp add: cg twoRoots_def)
  have node2: "Nodes (callgraph twoRootsGraph) ''main'' = Some 1"
    and func2: "Func (callgraph twoRootsGraph) 1 = ''main''"
    and node0: "Nodes (callgraph twoRootsGraph) ''init'' = Some 0"
    and func0: "Func (callgraph twoRootsGraph) 0 \<noteq> ''main''"
    by (simp_all add: cg twoRoots_def)
  have hit2: "reaches (callgraph twoRootsGraph) ''init'' ''main''"
    using reaches_twoRoots_init_main by (simp add: cg)
  then have ex: "\<exists>x\<in>set [''init'']. reaches (callgraph twoRootsGraph) x ''main''" by simp
  note inst2 = findPath_target_is_root[OF wf2 split2 present2 node2 func2]
  from inst2 ex obtain before x after r' p where
    pre: "[''init''] = before @ x # after" and r': "Nodes (callgraph twoRootsGraph) x = Some r'"
    and sh: "shortestTo (callgraph twoRootsGraph) r' ''main'' p"
    and fp2: "findPath twoRootsGraph ''main'' = Some (Inr (Some p))" by blast
  from pre have "x = ''init''" by (cases before) auto
  with r' node0 have "r' = 0" by simp
  moreover from fp2 findPath_twoRoots_main have "p = [call 0 1]" by simp
  ultimately have sh2: "shortestTo (callgraph twoRootsGraph) 0 ''main'' [call 0 1]"
    using sh by simp
  have p1: "Nodes (callgraph apartGraph) ''init'' \<noteq> None"
    by (simp add: apartGraph_simps apart_def)
  have m1: "\<not> reaches (callgraph apartGraph) ''init'' ''main''"
    using reaches_apart_init_main by (simp add: apartGraph_simps)
  from wf split p1 m1 node func ff self fp pp wr wf2 split2 node0 node2 func2 func0 hit2
    findPath_twoRoots_main sh2
  show ?thesis by (intro conjI)
qed

theorem findPath_target_is_root_counterexample:
  "''main'' \<in> set (roots twoRootsGraph) \<and>
   bfs (callgraph twoRootsGraph) ''main'' ''main'' = Some (Inr (Some [])) \<and>
   findPath twoRootsGraph ''main'' = Some (Inr (Some [call 0 1])) \<and>
   length [call 0 1] \<noteq> 0 \<and>
   printPath twoRootsGraph [call 0 1] \<noteq> []"
proof -
  have "callgraph twoRootsGraph = twoRoots" "roots twoRootsGraph = [''init'', ''main'']"
    by (simp_all add: twoRootsGraph_def)
  moreover have "printPath twoRootsGraph [call 0 1] \<noteq> []" by (simp add: printPath_def)
  ultimately show ?thesis using bfs_twoRoots_main_main findPath_twoRoots_main by simp
qed

section \<open>The permission mapping and the classifier: claims\<close>

lemma folds_alike:
  assumes "caseEquivalence lib" "EqualFold lib a b"
  shows "EqualFold lib k a \<longleftrightarrow> EqualFold lib k b"
proof
  assume "EqualFold lib k a"
  with assms show "EqualFold lib k b" unfolding caseEquivalence_def by blast
next
  assume kb: "EqualFold lib k b"
  from assms have "EqualFold lib b a" unfolding caseEquivalence_def by blast
  with kb assms(1) show "EqualFold lib k a" unfolding caseEquivalence_def by blast
qed

lemma sdkMethodToAction_fold:
  assumes "caseEquivalence lib" "EqualFold lib a b"
  shows "sdkMethodToAction lib m a = sdkMethodToAction lib m b"
proof (induction m)
  case Nil
  show ?case by simp
next
  case (Cons entry rest)
  obtain k ps where entry: "entry = (k, ps)" by (cases entry)
  from folds_alike[OF assms, of k] Cons.IH entry show ?case
    by (cases ps) simp_all
qed

lemma actionToSDKMethods_fold:
  assumes "caseEquivalence lib" "EqualFold lib a b"
  shows "actionToSDKMethods lib m a = actionToSDKMethods lib m b"
proof (induction m)
  case Nil
  show ?case by simp
next
  case (Cons entry rest)
  obtain k ps where entry: "entry = (k, ps)" by (cases entry)
  have "filter (\<lambda>priv. EqualFold lib (Action priv) a) ps
      = filter (\<lambda>priv. EqualFold lib (Action priv) b) ps"
    by (rule filter_cong) (simp_all add: folds_alike[OF assms])
  with Cons.IH entry show ?case by simp
qed

lemma actionToSDKMethods_set:
  "set (actionToSDKMethods lib m a) =
     {n. \<exists>privs priv. (n, privs) \<in> set m \<and> priv \<in> set privs \<and> EqualFold lib (Action priv) a}"
  by (induction lib m a rule: actionToSDKMethods.induct) auto

lemma sdkMethodToAction_absent:
  "\<forall>(k, privs)\<in>set m. \<not> EqualFold lib k a \<Longrightarrow> sdkMethodToAction lib m a = []"
  by (induction lib m a rule: sdkMethodToAction.induct) auto

lemma sdkMethodToAction_filter:
  "sdkMethodToAction lib m a =
     (case filter (\<lambda>(k, ps). EqualFold lib k a \<and> ps \<noteq> []) m of
        [] \<Rightarrow> []
      | (k, ps) # _ \<Rightarrow> Action (hd ps))"
  by (induction lib m a rule: sdkMethodToAction.induct) (auto split: list.splits)

lemma sdkMethodToAction_first:
  assumes "(opName, priv # privs) \<in> set m" "distinct (map fst m)"
    "\<forall>(k, ps)\<in>set m. EqualFold lib k opName \<longrightarrow> k = opName"
    and refl: "EqualFold lib opName opName"
  shows "sdkMethodToAction lib m opName = Action priv"
  using assms(1-3)
proof (induction m)
  case Nil
  then show ?case by simp
next
  case (Cons entry rest)
  obtain iamMethodName iamMethods where entry: "entry = (iamMethodName, iamMethods)"
    by (cases entry)
  show ?case
  proof (cases "iamMethodName = opName")
    case True
    with Cons.prems(1,2) entry have "iamMethods = priv # privs"
      by (auto simp: image_iff)
    with True entry refl show ?thesis by simp
  next
    case False
    with Cons.prems(3) entry have nf: "\<not> EqualFold lib iamMethodName opName" by auto
    from False Cons.prems(1) entry have "(opName, priv # privs) \<in> set rest" by auto
    moreover from Cons.prems(2) have "distinct (map fst rest)" by simp
    moreover from Cons.prems(3) have "\<forall>(k, ps)\<in>set rest. EqualFold lib k opName \<longrightarrow> k = opName"
      by auto
    ultimately have "sdkMethodToAction lib rest opName = Action priv" by (rule Cons.IH)
    with nf entry show ?thesis by simp
  qed
qed

text \<open>
  C3 (as amended). For an operation name that is a key of the dataset with a list of
  one or more permission identifiers, and that no other key equals up to letter case,
  \<open>sdkMethodToAction\<close> returns the first identifier of that list, a single string,
  whatever the order in which the map is visited; for an operation name that no key
  matches it returns the empty string, not an error. Of \<open>strings.EqualFold\<close> this uses
  that a string equals itself.
\<close>

theorem sdkMethodToAction_first_action:
  "((\<forall>s. EqualFold lib s s) \<and> (opName, priv # privs) \<in> set m \<and> distinct (map fst m) \<and>
      (\<forall>(k, ps)\<in>set m. EqualFold lib k opName \<longrightarrow> k = opName)
      \<longrightarrow> sdkMethodToAction lib m opName = Action priv) \<and>
   ((\<forall>(k, ps)\<in>set m. \<not> EqualFold lib k opName) \<longrightarrow> sdkMethodToAction lib m opName = [])"
proof (intro conjI impI)
  assume h: "(\<forall>s. EqualFold lib s s) \<and> (opName, priv # privs) \<in> set m \<and> distinct (map fst m) \<and>
      (\<forall>(k, ps)\<in>set m. EqualFold lib k opName \<longrightarrow> k = opName)"
  then have "(opName, priv # privs) \<in> set m" "distinct (map fst m)"
    "\<forall>(k, ps)\<in>set m. EqualFold lib k opName \<longrightarrow> k = opName" "EqualFold lib opName opName"
    by simp_all
  then show "sdkMethodToAction lib m opName = Action priv" by (rule sdkMethodToAction_first)
next
  assume "\<forall>(k, ps)\<in>set m. \<not> EqualFold lib k opName"
  then show "sdkMethodToAction lib m opName = []" by (rule sdkMethodToAction_absent)
qed

text \<open>
  C4. For every operation name of the dataset and every permission identifier in its
  list, \<open>actionToSDKMethods\<close> applied to that identifier includes the operation name.
  Of \<open>strings.EqualFold\<close> this uses that a string equals itself.
\<close>

theorem actionToSDKMethods_round_trip:
  assumes "\<forall>s. EqualFold lib s s" "(opName, privs) \<in> set m" "priv \<in> set privs"
  shows "opName \<in> set (actionToSDKMethods lib m (Action priv))"
  using assms unfolding actionToSDKMethods_set by blast

lemma same_key_same_list:
  "distinct (map fst m) \<Longrightarrow> (k, ps) \<in> set m \<Longrightarrow> (k, ps') \<in> set m \<Longrightarrow> ps = ps'"
  by (induction m) (auto simp: image_iff)

lemma sdkMethodToAction_the_match:
  assumes eq: "caseEquivalence lib" and dist: "distinct (map fst m)"
    and cd: "caseDistinct lib m"
    and mem: "(k, ps) \<in> set m" and match: "EqualFold lib k a" and ne: "ps \<noteq> []"
  shows "sdkMethodToAction lib m a = Action (hd ps)"
proof -
  let ?P = "\<lambda>(k, ps). EqualFold lib k a \<and> ps \<noteq> []"
  from mem match ne have "(k, ps) \<in> set (filter ?P m)" by simp
  then obtain k0 ps0 rest where f: "filter ?P m = (k0, ps0) # rest"
    by (cases "filter ?P m") auto
  then have "(k0, ps0) \<in> set (filter ?P m)" by simp
  then have mem0: "(k0, ps0) \<in> set m" and match0: "EqualFold lib k0 a" by auto
  from eq match have "EqualFold lib a k" unfolding caseEquivalence_def by blast
  with eq match0 have "EqualFold lib k0 k" unfolding caseEquivalence_def by blast
  moreover from mem0 mem have "k0 \<in> set (map fst m)" "k \<in> set (map fst m)" by force+
  ultimately have "k0 = k" using cd unfolding caseDistinct_def by blast
  with dist mem0 mem have "ps0 = ps" by (auto dest: same_key_same_list)
  with f show ?thesis by (simp add: sdkMethodToAction_filter)
qed

lemma sdkMethodToAction_orders:
  assumes eq: "caseEquivalence lib" and same: "sameMap m m'" and cd: "caseDistinct lib m"
    and ab: "EqualFold lib a b"
  shows "sdkMethodToAction lib m a = sdkMethodToAction lib m' b"
proof -
  from same have dist: "distinct (map fst m)" "distinct (map fst m')" and sets: "set m = set m'"
    unfolding sameMap_def by blast+
  from sets have keys: "set (map fst m') = set (map fst m)" by simp
  from cd have cd': "caseDistinct lib m'" unfolding caseDistinct_def keys .
  have b: "sdkMethodToAction lib m' b = sdkMethodToAction lib m' a"
    using sdkMethodToAction_fold[OF eq ab] by simp
  show ?thesis
  proof (cases "\<exists>k ps. (k, ps) \<in> set m \<and> EqualFold lib k a \<and> ps \<noteq> []")
    case True
    then obtain k ps where h: "(k, ps) \<in> set m" "EqualFold lib k a" "ps \<noteq> []" by blast
    from sdkMethodToAction_the_match[OF eq dist(1) cd h]
    have "sdkMethodToAction lib m a = Action (hd ps)" .
    moreover from h(1) sets have "(k, ps) \<in> set m'" by simp
    from sdkMethodToAction_the_match[OF eq dist(2) cd' this h(2,3)]
    have "sdkMethodToAction lib m' a = Action (hd ps)" .
    ultimately show ?thesis using b by simp
  next
    case False
    then have "filter (\<lambda>(k, ps). EqualFold lib k a \<and> ps \<noteq> []) m = []"
      by (auto simp: filter_empty_conv)
    moreover from False sets have "filter (\<lambda>(k, ps). EqualFold lib k a \<and> ps \<noteq> []) m' = []"
      by (auto simp: filter_empty_conv)
    ultimately show ?thesis using b by (simp add: sdkMethodToAction_filter)
  qed
qed

lemma actionToSDKMethods_orders:
  assumes eq: "caseEquivalence lib" and same: "sameMap m m'" and ab: "EqualFold lib a b"
  shows "set (actionToSDKMethods lib m a) = set (actionToSDKMethods lib m' b)"
proof -
  from same have "set m = set m'" unfolding sameMap_def by blast
  then have "set (actionToSDKMethods lib m a) = set (actionToSDKMethods lib m' a)"
    by (simp add: actionToSDKMethods_set)
  with actionToSDKMethods_fold[OF eq ab, of m'] show ?thesis by simp
qed

text \<open>
  C7 (as amended). \<open>strings.EqualFold\<close> being an equivalence: for one visiting order
  of the dataset, both lookups give the same result for two arguments that differ only
  in letter case; \<open>actionToSDKMethods\<close> returns exactly the names of the entries that
  have an action equal to the argument up to letter case, and \<open>sdkMethodToAction\<close>
  returns the first action of the first entry visited whose key equals the argument
  up to letter case and whose list is not empty, and the empty string when there is
  none. No other matching takes place. For two visiting orders of the same map the
  names returned are the same as a set, and the action returned is the same when no
  two keys of the dataset are equal up to letter case.
\<close>

theorem lookups_case_insensitive:
  assumes eq: "caseEquivalence lib"
  shows "(EqualFold lib a b \<longrightarrow>
            sdkMethodToAction lib m a = sdkMethodToAction lib m b \<and>
            actionToSDKMethods lib m a = actionToSDKMethods lib m b) \<and>
         set (actionToSDKMethods lib m a) =
           {n. \<exists>privs priv. (n, privs) \<in> set m \<and> priv \<in> set privs \<and>
                  EqualFold lib (Action priv) a} \<and>
         sdkMethodToAction lib m a =
           (case filter (\<lambda>(k, ps). EqualFold lib k a \<and> ps \<noteq> []) m of
              [] \<Rightarrow> []
            | (k, ps) # _ \<Rightarrow> Action (hd ps)) \<and>
         (sameMap m m' \<and> EqualFold lib a b \<longrightarrow>
            set (actionToSDKMethods lib m a) = set (actionToSDKMethods lib m' b) \<and>
            (caseDistinct lib m \<longrightarrow> sdkMethodToAction lib m a = sdkMethodToAction lib m' b))"
proof (intro conjI impI)
  assume ab: "EqualFold lib a b"
  from eq ab show "sdkMethodToAction lib m a = sdkMethodToAction lib m b"
    by (rule sdkMethodToAction_fold)
  from eq ab show "actionToSDKMethods lib m a = actionToSDKMethods lib m b"
    by (rule actionToSDKMethods_fold)
next
  show "set (actionToSDKMethods lib m a) =
           {n. \<exists>privs priv. (n, privs) \<in> set m \<and> priv \<in> set privs \<and>
                  EqualFold lib (Action priv) a}" by (rule actionToSDKMethods_set)
  show "sdkMethodToAction lib m a =
           (case filter (\<lambda>(k, ps). EqualFold lib k a \<and> ps \<noteq> []) m of
              [] \<Rightarrow> []
            | (k, ps) # _ \<Rightarrow> Action (hd ps))" by (rule sdkMethodToAction_filter)
next
  assume h: "sameMap m m' \<and> EqualFold lib a b"
  then have same: "sameMap m m'" and ab: "EqualFold lib a b" by simp_all
  from eq same ab show "set (actionToSDKMethods lib m a) = set (actionToSDKMethods lib m' b)"
    by (rule actionToSDKMethods_orders)
  assume cd: "caseDistinct lib m"
  from eq same cd ab show "sdkMethodToAction lib m a = sdkMethodToAction lib m' b"
    by (rule sdkMethodToAction_orders)
qed

lemma caseEquivalence_ascii: "caseEquivalence ascii"
  by (simp add: caseEquivalence_def ascii_def)

lemma ascii_refl: "\<forall>s. EqualFold ascii s s"
  by (simp add: ascii_def)

lemma fold_examples:
  "\<not> EqualFold ascii ''SSM.GetParameters'' ''SSM.GetParameter''"
  "\<not> EqualFold ascii ''STS.GetCallerIdentity'' ''SSM.GetParameter''"
  "\<not> EqualFold ascii ''SSM.GetParameter'' ''EC2.RunInstances''"
  "\<not> EqualFold ascii ''SSM.GetParameters'' ''EC2.RunInstances''"
  "\<not> EqualFold ascii ''STS.GetCallerIdentity'' ''EC2.RunInstances''"
  "EqualFold ascii ''ssm:GETPARAMETER'' ''ssm:GetParameter''"
  "EqualFold ascii ''ssm.getparameter'' ''SSM.GetParameter''"
  by code_simp+

lemma dataset_examples:
  "sdkMethodToAction ascii dataset ''SSM.GetParameter'' = ''ssm:GetParameter''"
  "sdkMethodToAction ascii dataset ''EC2.RunInstances'' = []"
  "sdkMethodToAction ascii dataset ''STS.GetCallerIdentity'' = []"
  "actionToSDKMethods ascii dataset ''ssm:GetParameter'' = [''SSM.GetParameter'', ''SSM.GetParameters'']"
  "actionToSDKMethods ascii dataset ''ssm:*'' = []"
  "actionToSDKMethods ascii dataset ''ssm:Get'' = []"
  "actionToSDKMethods ascii (rev dataset) ''ssm:GetParameter'' = [''SSM.GetParameters'', ''SSM.GetParameter'']"
  "sdkMethodToAction ascii (rev dataset) ''ssm.getparameter'' = ''ssm:GetParameter''"
  "sdkMethodToAction ascii collide ''a.b'' = ''a:One''"
  "sdkMethodToAction ascii (rev collide) ''a.b'' = ''b:Two''"
  "caseDistinct ascii dataset"
  by code_simp+

lemma sameMap_rev: "distinct (map fst m) \<Longrightarrow> sameMap m (rev m)"
proof -
  assume d: "distinct (map fst m)"
  have "map fst (rev m) = rev (map fst m)" by (rule rev_map[symmetric])
  with d have "distinct (map fst (rev m))" by simp
  with d show ?thesis by (simp add: sameMap_def)
qed

lemma sameMap_examples: "sameMap dataset (rev dataset)" "sameMap collide (rev collide)"
  by (rule sameMap_rev, simp add: dataset_def, rule sameMap_rev, simp add: collide_def)

theorem sdkMethodToAction_all_counterexample:
  "(''SSM.GetParameter'', [\<lparr> Action = ''ssm:GetParameter'' \<rparr>, \<lparr> Action = ''kms:Decrypt'' \<rparr>])
     \<in> set dataset \<and>
   sdkMethodToAction ascii dataset ''SSM.GetParameter'' = ''ssm:GetParameter'' \<and>
   sdkMethodToAction ascii dataset ''SSM.GetParameter'' \<noteq> ''kms:Decrypt''"
  using dataset_examples(1) by (simp add: dataset_def)

theorem sdkMethodToAction_first_action_witness:
  "EqualFold ascii ''SSM.GetParameter'' ''SSM.GetParameter'' \<and>
   (''SSM.GetParameter'', \<lparr> Action = ''ssm:GetParameter'' \<rparr> # [\<lparr> Action = ''kms:Decrypt'' \<rparr>])
     \<in> set dataset \<and>
   distinct (map fst dataset) \<and>
   \<not> EqualFold ascii ''SSM.GetParameters'' ''SSM.GetParameter'' \<and>
   \<not> EqualFold ascii ''STS.GetCallerIdentity'' ''SSM.GetParameter'' \<and>
   sdkMethodToAction ascii dataset ''SSM.GetParameter'' = Action \<lparr> Action = ''ssm:GetParameter'' \<rparr> \<and>
   \<not> EqualFold ascii ''SSM.GetParameter'' ''EC2.RunInstances'' \<and>
   \<not> EqualFold ascii ''SSM.GetParameters'' ''EC2.RunInstances'' \<and>
   \<not> EqualFold ascii ''STS.GetCallerIdentity'' ''EC2.RunInstances'' \<and>
   sdkMethodToAction ascii dataset ''EC2.RunInstances'' = []"
proof -
  have mem: "(''SSM.GetParameter'', \<lparr> Action = ''ssm:GetParameter'' \<rparr> # [\<lparr> Action = ''kms:Decrypt'' \<rparr>])
     \<in> set dataset" by (simp add: dataset_def)
  have dist: "distinct (map fst dataset)" by (simp add: dataset_def)
  have only: "\<forall>(k, ps)\<in>set dataset. EqualFold ascii k ''SSM.GetParameter'' \<longrightarrow> k = ''SSM.GetParameter''"
    using fold_examples(1,2) by (simp add: dataset_def)
  have none: "\<forall>(k, ps)\<in>set dataset. \<not> EqualFold ascii k ''EC2.RunInstances''"
    using fold_examples(3,4,5) by (simp add: dataset_def)
  have self: "EqualFold ascii ''SSM.GetParameter'' ''SSM.GetParameter''"
    using ascii_refl by blast
  from sdkMethodToAction_first_action[of ascii "''SSM.GetParameter''"
      "\<lparr> Action = ''ssm:GetParameter'' \<rparr>" "[\<lparr> Action = ''kms:Decrypt'' \<rparr>]" dataset]
    ascii_refl mem dist only
  have a: "sdkMethodToAction ascii dataset ''SSM.GetParameter'' = Action \<lparr> Action = ''ssm:GetParameter'' \<rparr>"
    by blast
  from sdkMethodToAction_first_action[of ascii "''EC2.RunInstances''" _ _ dataset] none
  have b: "sdkMethodToAction ascii dataset ''EC2.RunInstances'' = []" by blast
  from self mem dist a b fold_examples(1-5) show ?thesis by (intro conjI)
qed

theorem actionToSDKMethods_round_trip_witness:
  "EqualFold ascii ''ssm:GetParameter'' ''ssm:GetParameter'' \<and>
   (''SSM.GetParameters'', [\<lparr> Action = ''ssm:GetParameter'' \<rparr>]) \<in> set dataset \<and>
   \<lparr> Action = ''ssm:GetParameter'' \<rparr> \<in> set [\<lparr> Action = ''ssm:GetParameter'' \<rparr>] \<and>
   ''SSM.GetParameters'' \<in> set (actionToSDKMethods ascii dataset (Action \<lparr> Action = ''ssm:GetParameter'' \<rparr>))"
proof -
  have mem: "(''SSM.GetParameters'', [\<lparr> Action = ''ssm:GetParameter'' \<rparr>]) \<in> set dataset"
    by (simp add: dataset_def)
  have priv: "\<lparr> Action = ''ssm:GetParameter'' \<rparr> \<in> set [\<lparr> Action = ''ssm:GetParameter'' \<rparr>]" by simp
  have self: "EqualFold ascii ''ssm:GetParameter'' ''ssm:GetParameter''"
    using ascii_refl by blast
  from actionToSDKMethods_round_trip[OF ascii_refl mem priv] self mem priv
  show ?thesis by (intro conjI)
qed

theorem lookups_case_insensitive_witness:
  "caseEquivalence ascii \<and>
   EqualFold ascii ''ssm:GETPARAMETER'' ''ssm:GetParameter'' \<and>
   actionToSDKMethods ascii dataset ''ssm:GETPARAMETER''
     = actionToSDKMethods ascii dataset ''ssm:GetParameter'' \<and>
   actionToSDKMethods ascii dataset ''ssm:GetParameter'' = [''SSM.GetParameter'', ''SSM.GetParameters''] \<and>
   sdkMethodToAction ascii dataset ''ssm:GETPARAMETER''
     = sdkMethodToAction ascii dataset ''ssm:GetParameter'' \<and>
   actionToSDKMethods ascii dataset ''ssm:*'' = [] \<and>
   actionToSDKMethods ascii dataset ''ssm:Get'' = [] \<and>
   sameMap dataset (rev dataset) \<and> caseDistinct ascii dataset \<and>
   EqualFold ascii ''ssm.getparameter'' ''SSM.GetParameter'' \<and>
   sdkMethodToAction ascii dataset ''ssm.getparameter''
     = sdkMethodToAction ascii (rev dataset) ''SSM.GetParameter'' \<and>
   sdkMethodToAction ascii (rev dataset) ''SSM.GetParameter'' = ''ssm:GetParameter''"
proof -
  note i1 = lookups_case_insensitive[OF caseEquivalence_ascii,
      of "''ssm:GETPARAMETER''" "''ssm:GetParameter''" dataset dataset]
  note i2 = lookups_case_insensitive[OF caseEquivalence_ascii,
      of "''ssm.getparameter''" "''SSM.GetParameter''" dataset "rev dataset"]
  from i1 fold_examples(6) have a:
    "actionToSDKMethods ascii dataset ''ssm:GETPARAMETER''
       = actionToSDKMethods ascii dataset ''ssm:GetParameter''"
    "sdkMethodToAction ascii dataset ''ssm:GETPARAMETER''
       = sdkMethodToAction ascii dataset ''ssm:GetParameter''" by simp_all
  have both: "sameMap dataset (rev dataset) \<and> EqualFold ascii ''ssm.getparameter'' ''SSM.GetParameter''"
    using sameMap_examples(1) fold_examples(7) by (intro conjI)
  from i2[THEN conjunct2, THEN conjunct2, THEN conjunct2, THEN mp, OF both, THEN conjunct2,
      THEN mp, OF dataset_examples(11)]
  have b:
    "sdkMethodToAction ascii dataset ''ssm.getparameter''
       = sdkMethodToAction ascii (rev dataset) ''SSM.GetParameter''" .
  have c: "sdkMethodToAction ascii (rev dataset) ''SSM.GetParameter'' = ''ssm:GetParameter''"
    by code_simp
  from caseEquivalence_ascii fold_examples(6) a(1) dataset_examples(4) a(2)
    dataset_examples(5,6) sameMap_examples(1) dataset_examples(11) fold_examples(7) b c
  show ?thesis by (intro conjI)
qed

theorem lookups_order_counterexample:
  "sameMap collide (rev collide) \<and>
   sdkMethodToAction ascii collide ''a.b'' = ''a:One'' \<and>
   sdkMethodToAction ascii (rev collide) ''a.b'' = ''b:Two'' \<and>
   sameMap dataset (rev dataset) \<and>
   actionToSDKMethods ascii dataset ''ssm:GetParameter''
     = [''SSM.GetParameter'', ''SSM.GetParameters''] \<and>
   actionToSDKMethods ascii (rev dataset) ''ssm:GetParameter''
     = [''SSM.GetParameters'', ''SSM.GetParameter'']"
  using sameMap_examples dataset_examples(4,7,9,10) by (intro conjI)

lemma v1_v2_prefix:
  "prefix ''github.com/aws/aws-sdk-go-v2/service/'' s
     \<Longrightarrow> \<not> prefix ''github.com/aws/aws-sdk-go/service/'' s"
proof
  assume a: "prefix ''github.com/aws/aws-sdk-go-v2/service/'' s"
    and b: "prefix ''github.com/aws/aws-sdk-go/service/'' s"
  from a b have "prefix ''github.com/aws/aws-sdk-go-v2/service/'' ''github.com/aws/aws-sdk-go/service/''
      \<or> prefix ''github.com/aws/aws-sdk-go/service/'' ''github.com/aws/aws-sdk-go-v2/service/''"
    by (rule prefix_same_cases)
  then show False by simp
qed

lemma Request_suffix:
  assumes "suffix ''Request'' s"
  shows "\<not> suffix ''new'' s" "\<not> suffix ''Set'' s"
proof -
  have "suffix ''new'' s \<Longrightarrow> False"
  proof -
    assume "suffix ''new'' s"
    with assms have "suffix ''Request'' ''new'' \<or> suffix ''new'' ''Request''"
      by (rule suffix_same_cases)
    then show False by (simp add: suffix_to_prefix)
  qed
  then show "\<not> suffix ''new'' s" by blast
  have "suffix ''Set'' s \<Longrightarrow> False"
  proof -
    assume "suffix ''Set'' s"
    with assms have "suffix ''Request'' ''Set'' \<or> suffix ''Set'' ''Request''"
      by (rule suffix_same_cases)
    then show False by (simp add: suffix_to_prefix)
  qed
  then show "\<not> suffix ''Set'' s" by blast
qed

lemma isAWSSDKv2Call_iff:
  "isAWSSDKv2Call p fn \<longleftrightarrow>
     prefix ''github.com/aws/aws-sdk-go-v2/service/'' (fnPkgPath p fn) \<and>
     suffix (''/api_op_'' @ fnName p fn @ ''.go'') (fnFilename p fn)"
  by (simp add: isAWSSDKv2Call_def HasPrefix_def HasSuffix_def)

lemma isAWSSDKv1Call_iff:
  "isAWSSDKv1Call p fn \<longleftrightarrow>
     prefix ''github.com/aws/aws-sdk-go/service/'' (fnPkgPath p fn) \<and>
     suffix ''/api.go'' (fnFilename p fn) \<and> suffix ''Request'' (fnName p fn)"
  using Request_suffix[of "fnName p fn"]
  by (auto simp: isAWSSDKv1Call_def HasPrefix_def HasSuffix_def)

lemma TrimSuffix_append: "TrimSuffix (base @ x) x = base"
  by (simp add: TrimSuffix_def HasSuffix_def suffix_def)

text \<open>
  C2. \<open>sdkVersion\<close> classifies a function as a call of SDK v2 exactly when its package
  path starts with \<open>github.com/aws/aws-sdk-go-v2/service/\<close> and its file ends with
  \<open>/api_op_<Name>.go\<close>, as a call of SDK v1 exactly when its package path starts with
  \<open>github.com/aws/aws-sdk-go/service/\<close>, its file ends with \<open>/api.go\<close> and its name
  ends with \<open>Request\<close>, and as no SDK call otherwise. The name handed to the
  permission lookup is \<open>service.Method\<close> for both, the \<open>Request\<close> of v1 stripped, so a
  v1 and a v2 function of the same operation get the same name.
\<close>

theorem sdkVersion_classifies:
  "(sdkVersion p fn = ''v2'' \<longleftrightarrow>
      prefix ''github.com/aws/aws-sdk-go-v2/service/'' (fnPkgPath p fn) \<and>
      suffix (''/api_op_'' @ fnName p fn @ ''.go'') (fnFilename p fn)) \<and>
   (sdkVersion p fn = ''v1'' \<longleftrightarrow>
      prefix ''github.com/aws/aws-sdk-go/service/'' (fnPkgPath p fn) \<and>
      suffix ''/api.go'' (fnFilename p fn) \<and> suffix ''Request'' (fnName p fn)) \<and>
   (sdkVersion p fn \<noteq> [] \<longleftrightarrow> sdkVersion p fn = ''v2'' \<or> sdkVersion p fn = ''v1'') \<and>
   (sdkVersion p fn = ''v2'' \<longrightarrow> sdkMethodName p fn = fnPkgName p fn @ ''.'' @ fnName p fn) \<and>
   (\<forall>base. sdkVersion p fn = ''v1'' \<and> fnName p fn = base @ ''Request''
      \<longrightarrow> sdkMethodName p fn = fnPkgName p fn @ ''.'' @ base) \<and>
   (\<forall>fn'. sdkVersion p fn = ''v1'' \<and> sdkVersion p fn' = ''v2'' \<and>
          fnPkgName p fn = fnPkgName p fn' \<and> fnName p fn = fnName p fn' @ ''Request''
      \<longrightarrow> sdkMethodName p fn = sdkMethodName p fn')"
proof -
  have v2: "sdkVersion p fn = ''v2'' \<longleftrightarrow> isAWSSDKv2Call p fn"
    by (simp add: sdkVersion_def)
  have v1: "sdkVersion p fn = ''v1'' \<longleftrightarrow> isAWSSDKv1Call p fn"
    using v1_v2_prefix[of "fnPkgPath p fn"]
    by (auto simp: sdkVersion_def isAWSSDKv2Call_iff isAWSSDKv1Call_iff)
  have some: "sdkVersion p fn \<noteq> [] \<longleftrightarrow> sdkVersion p fn = ''v2'' \<or> sdkVersion p fn = ''v1''"
    by (simp add: sdkVersion_def)
  have n2: "sdkVersion p f = ''v2'' \<Longrightarrow> sdkMethodName p f = fnPkgName p f @ ''.'' @ fnName p f"
    for f by (simp add: sdkMethodName_def)
  have n1: "sdkVersion p fn = ''v1'' \<Longrightarrow> fnName p fn = base @ ''Request''
      \<Longrightarrow> sdkMethodName p fn = fnPkgName p fn @ ''.'' @ base" for base
    by (simp add: sdkMethodName_def TrimSuffix_append)
  from v2 v1 some n2 n1 show ?thesis
    unfolding isAWSSDKv2Call_iff isAWSSDKv1Call_iff by auto
qed

lemma sdkProgram_examples:
  "sdkVersion sdkProgram ''v2'' = ''v2''" "sdkVersion sdkProgram ''v1'' = ''v1''"
  "sdkVersion sdkProgram ''main'' = []"
  "sdkMethodName sdkProgram ''v2'' = ''s3.GetObject''"
  "sdkMethodName sdkProgram ''v1'' = ''s3.GetObject''"
  by code_simp+

theorem sdkVersion_classifies_witness:
  "sdkVersion sdkProgram ''v1'' = ''v1'' \<and> sdkVersion sdkProgram ''v2'' = ''v2'' \<and>
   sdkVersion sdkProgram ''main'' = [] \<and>
   prefix ''github.com/aws/aws-sdk-go/service/'' (fnPkgPath sdkProgram ''v1'') \<and>
   suffix ''/api.go'' (fnFilename sdkProgram ''v1'') \<and>
   suffix ''Request'' (fnName sdkProgram ''v1'') \<and>
   fnPkgName sdkProgram ''v1'' = fnPkgName sdkProgram ''v2'' \<and>
   fnName sdkProgram ''v1'' = fnName sdkProgram ''v2'' @ ''Request'' \<and>
   sdkMethodName sdkProgram ''v1'' = sdkMethodName sdkProgram ''v2'' \<and>
   sdkMethodName sdkProgram ''v1'' = ''s3.GetObject''"
proof -
  note inst = sdkVersion_classifies[of sdkProgram "''v1''"]
  have names: "fnPkgName sdkProgram ''v1'' = fnPkgName sdkProgram ''v2''"
    "fnName sdkProgram ''v1'' = fnName sdkProgram ''v2'' @ ''Request''"
    by (simp_all add: sdkProgram_def)
  from inst sdkProgram_examples(2) have conds:
    "prefix ''github.com/aws/aws-sdk-go/service/'' (fnPkgPath sdkProgram ''v1'')"
    "suffix ''/api.go'' (fnFilename sdkProgram ''v1'')"
    "suffix ''Request'' (fnName sdkProgram ''v1'')" by blast+
  from inst sdkProgram_examples(1,2) names
  have "sdkMethodName sdkProgram ''v1'' = sdkMethodName sdkProgram ''v2''" by blast
  with conds names sdkProgram_examples show ?thesis by simp
qed

section \<open>The loop of main: claims\<close>

lemma collect_step:
  "collectSDKMethods g reflection (fn0 # keys) acc =
     (case classified g fn0 of
        None \<Rightarrow> collectSDKMethods g reflection keys acc
      | Some fn \<Rightarrow>
          if \<not> reflection
          then (case findPath g fn of
                  None \<Rightarrow> None
                | Some (Inl p) \<Rightarrow> Some (Inl p)
                | Some (Inr None) \<Rightarrow> collectSDKMethods g reflection keys acc
                | Some (Inr (Some path)) \<Rightarrow>
                    collectSDKMethods g reflection keys (acc @ [sdkMethodName (program g) fn]))
          else collectSDKMethods g reflection keys (acc @ [sdkMethodName (program g) fn]))"
  by (simp add: classified_def Let_def split: option.splits)

lemma map_filter_Cons:
  "List.map_filter f (x # xs) = (case f x of None \<Rightarrow> List.map_filter f xs
                                  | Some y \<Rightarrow> y # List.map_filter f xs)"
  by (simp add: List.map_filter_def split: option.splits)

lemma set_map_filter: "set (List.map_filter f xs) = {y. \<exists>x\<in>set xs. f x = Some y}"
  by (induction xs) (auto simp: map_filter_Cons List.map_filter_def split: option.splits)

lemma collect_with_reflection:
  "collectSDKMethods g True keys acc =
     Some (Inr (acc @ map (sdkMethodName (program g)) (List.map_filter (classified g) keys)))"
proof (induction keys arbitrary: acc)
  case Nil
  then show ?case by (simp add: List.map_filter_def)
next
  case (Cons fn0 keys)
  show ?case
    by (cases "classified g fn0") (simp_all add: collect_step map_filter_Cons Cons.IH del: collectSDKMethods.simps(2))
qed

lemma collect_without_reflection:
  "collectSDKMethods g False keys acc = Some (Inr res) \<longleftrightarrow>
     (\<forall>fn\<in>set (List.map_filter (classified g) keys). \<exists>r. findPath g fn = Some (Inr r)) \<and>
     res = acc @ map (sdkMethodName (program g))
             (filter (\<lambda>fn. findPath g fn \<noteq> Some (Inr None))
                (List.map_filter (classified g) keys))"
proof (induction keys arbitrary: acc)
  case Nil
  then show ?case by (auto simp: List.map_filter_def)
next
  case (Cons fn0 keys)
  show ?case
  proof (cases "classified g fn0")
    case None
    then show ?thesis by (simp add: collect_step map_filter_Cons Cons.IH del: collectSDKMethods.simps(2))
  next
    case (Some fn)
    show ?thesis
    proof (cases "findPath g fn")
      case None
      with Some show ?thesis by (simp add: collect_step map_filter_Cons del: collectSDKMethods.simps(2))
    next
      case outer: (Some r)
      show ?thesis
      proof (cases r)
        case (Inl p)
        with Some outer show ?thesis by (simp add: collect_step map_filter_Cons del: collectSDKMethods.simps(2))
      next
        case (Inr path)
        with Some outer show ?thesis
          by (cases path) (simp_all add: collect_step map_filter_Cons Cons.IH del: collectSDKMethods.simps(2))
      qed
    qed
  qed
qed

lemma collect_monotone:
  assumes run: "collectSDKMethods g False keys [] = Some (Inr without)"
    and keys: "set keys \<subseteq> set keys'"
  shows "\<exists>with. collectSDKMethods g True keys' [] = Some (Inr with) \<and> set without \<subseteq> set with"
proof -
  from run have "without = map (sdkMethodName (program g))
      (filter (\<lambda>fn. findPath g fn \<noteq> Some (Inr None)) (List.map_filter (classified g) keys))"
    by (simp add: collect_without_reflection)
  then have "set without \<subseteq> sdkMethodName (program g) ` set (List.map_filter (classified g) keys)"
    by auto
  also have "\<dots> \<subseteq> sdkMethodName (program g) ` set (List.map_filter (classified g) keys')"
    using keys by (auto simp: set_map_filter)
  finally have "set without \<subseteq> set (map (sdkMethodName (program g))
      (List.map_filter (classified g) keys'))" by simp
  then show ?thesis by (simp add: collect_with_reflection)
qed




lemma enumerate_map_const:
  "map (\<lambda>(k, x). h x) (enumerate n xs) = map h xs"
  by (induction xs arbitrary: n) auto

lemma listing_monotone:
  assumes "listing e g False sdkcalls (\<lambda>k. m) = Printed out"
  shows "\<exists>out'. listing e g True sdkcalls (\<lambda>k. m) = Printed out' \<and> set out \<subseteq> set out'"
proof -
  let ?keys = "rangeReachable e 0"
  from assms obtain without where w: "collectSDKMethods g False ?keys [] = Some (Inr without)"
    by (auto simp: listing_def split: option.splits sum.splits)
  from collect_monotone[OF w subset_refl] obtain with' where
    w': "collectSDKMethods g True ?keys [] = Some (Inr with')" "set without \<subseteq> set with'" by blast
  from assms w have ne: "without \<noteq> []" by (auto simp: listing_def)
  with w'(2) have ne': "with' \<noteq> []" by auto
  show ?thesis
  proof (cases sdkcalls)
    case True
    with assms w ne have "out = map PrintLine without" by (simp add: listing_def)
    moreover from True w'(1) ne' have "listing e g True sdkcalls (\<lambda>k. m) = Printed (map PrintLine with')"
      by (simp add: listing_def)
    ultimately show ?thesis using w'(2) by auto
  next
    case False
    let ?acts = "\<lambda>ms. filter (\<lambda>a. a \<noteq> []) (map (sdkMethodToAction (stringsPkg e) m) ms)"
    from False assms w ne have out: "out = map PrintLine (?acts without)" "?acts without \<noteq> []"
      by (auto simp: listing_def enumerate_map_const Let_def split: if_splits)
    have sub: "set (?acts without) \<subseteq> set (?acts with')" using w'(2) by auto
    with out(2) have "?acts with' \<noteq> []" by (metis set_empty subset_empty)
    with False w'(1) ne' have "listing e g True sdkcalls (\<lambda>k. m) = Printed (map PrintLine (?acts with'))"
      by (simp add: listing_def enumerate_map_const Let_def)
    with out(1) sub show ?thesis by auto
  qed
qed

text \<open>
  C6. For a fixed graph, every SDK method that the loop of \<open>main\<close> collects without
  \<open>-reflection\<close> is also collected with it, whatever the orders in which the two runs
  visit the reachable functions; and every line that the listing prints without the
  flag is also printed with it.
\<close>

theorem reflection_monotone:
  "(collectSDKMethods g False keys [] = Some (Inr without) \<and> set keys \<subseteq> set keys'
      \<longrightarrow> (\<exists>with. collectSDKMethods g True keys' [] = Some (Inr with) \<and>
                  set without \<subseteq> set with)) \<and>
   (listing e g False sdkcalls (\<lambda>k. m) = Printed out
      \<longrightarrow> (\<exists>out'. listing e g True sdkcalls (\<lambda>k. m) = Printed out' \<and> set out \<subseteq> set out'))"
  using collect_monotone listing_monotone by blast

lemma valueOnly_examples:
  "collectSDKMethods valueOnly False appKeys [] = Some (Inr [''ssm.GetParameter''])"
  "collectSDKMethods valueOnly True appKeys [] = Some (Inr [''ssm.GetParameter'', ''ssm.GetParameters''])"
  by code_simp+

theorem reflection_monotone_witness:
  "collectSDKMethods valueOnly False appKeys [] = Some (Inr [''ssm.GetParameter'']) \<and>
   set appKeys \<subseteq> set appKeys \<and>
   collectSDKMethods valueOnly True appKeys [] =
     Some (Inr [''ssm.GetParameter'', ''ssm.GetParameters'']) \<and>
   set [''ssm.GetParameter''] \<subseteq> set [''ssm.GetParameter'', ''ssm.GetParameters'']"
  using reflection_monotone[of valueOnly appKeys "[''ssm.GetParameter'']" appKeys]
    valueOnly_examples by simp

























section \<open>The exit status of main: claim\<close>
































end
